theory Spec2Isabelle
  imports Complex_Main "HOL-Library.Word"
begin

unbundle bit_operations_syntax

section \<open>The binary program of bip.c\<close>

text \<open>
  The enumerator of \<^verbatim>\<open>bip.c\<close> works on one structure, \<^verbatim>\<open>struct binary_program\<close>.
  Its fixed-size arrays are functions from indices, its \<^verbatim>\<open>int\<close> fields are integers
  (no count ever leaves the range of a 32 bit \<^verbatim>\<open>int\<close> once the reader has accepted it),
  the \<^verbatim>\<open>unsigned int\<close> bit vectors of the enumeration are 32 bit words.
  A \<^verbatim>\<open>double\<close> that the reader has accepted is finite; it is a real number here, and
  sums and products of such values are the exact ones: rounding is not part of this
  development. The \<^verbatim>\<open>assert\<close>s of the source are not executed (\<^verbatim>\<open>NDEBUG\<close>).
\<close>

type_synonym u32 = "32 word"

definition BIP_MAX_COLS :: int where
  "BIP_MAX_COLS = 32"

definition BIP_MAX_ROWS :: int where
  "BIP_MAX_ROWS = 128"

definition DEBRUIJN32 :: u32 where
  "DEBRUIJN32 = 0x077CB531"

datatype Sense = LE | GE | EQ

record BIP =
  rows :: int
  cols :: int
  ar :: "nat \<Rightarrow> nat \<Rightarrow> real"
  rhs :: "nat \<Rightarrow> real"
  sense :: "nat \<Rightarrow> Sense"
  equs :: int
  ac :: "nat \<Rightarrow> nat \<Rightarrow> real"
  rhs_ord :: "nat \<Rightarrow> real"
  min_coef_val :: real
  max_coef_val :: real
  verb_level :: int
  read_rows :: int

text \<open>
  \<^verbatim>\<open>bip_init\<close>: the structure is zeroed by \<^verbatim>\<open>calloc\<close> (so every sense is \<^verbatim>\<open>LE = 0\<close>), then
  the bounds are set to \<open>\<plusminus> 10^DBL_DIG\<close>. \<^verbatim>\<open>DBL_DIG\<close> comes from \<^verbatim>\<open>float.h\<close>; it is 15 for
  the IEEE double.
\<close>

definition DBL_DIG :: nat where
  "DBL_DIG = 15"

definition bip_init :: "int \<Rightarrow> BIP" where
  "bip_init verb =
     \<lparr>rows = 0, cols = 0, ar = (\<lambda>r c. 0), rhs = (\<lambda>r. 0), sense = (\<lambda>r. LE), equs = 0,
      ac = (\<lambda>c r. 0), rhs_ord = (\<lambda>r. 0),
      min_coef_val = - (10 ^ DBL_DIG), max_coef_val = 10 ^ DBL_DIG,
      verb_level = verb, read_rows = 0\<rparr>"

section \<open>The overflow guard\<close>

text \<open>
  \<^verbatim>\<open>bip_can_overflow\<close> returns \<^verbatim>\<open>true\<close> after printing one of two messages that name a row,
  or \<^verbatim>\<open>false\<close>. The result here is the message, if any.
\<close>

datatype overflow_msg = Row_overflow nat | Row_negative_overflow nat

fun row_can_overflow :: "BIP \<Rightarrow> nat \<Rightarrow> nat list \<Rightarrow> real \<Rightarrow> real \<Rightarrow> overflow_msg option" where
  "row_can_overflow bip r [] row_max row_min = None"
| "row_can_overflow bip r (c # cs) row_max row_min =
     (let val = ar bip r c
      in if val > 0
         then (if row_max \<ge> max_coef_val bip - val then Some (Row_overflow r)
               else row_can_overflow bip r cs (row_max + val) row_min)
         else if val < 0
         then (if row_min \<le> min_coef_val bip - val then Some (Row_negative_overflow r)
               else row_can_overflow bip r cs row_max (row_min + val))
         else row_can_overflow bip r cs row_max row_min)"

fun rows_can_overflow :: "BIP \<Rightarrow> nat list \<Rightarrow> overflow_msg option" where
  "rows_can_overflow bip [] = None"
| "rows_can_overflow bip (r # rs) =
     (case row_can_overflow bip r [0..<nat (cols bip)] 0 0 of
        Some msg \<Rightarrow> Some msg
      | None \<Rightarrow> rows_can_overflow bip rs)"

definition bip_can_overflow :: "BIP \<Rightarrow> overflow_msg option" where
  "bip_can_overflow bip = rows_can_overflow bip [0..<nat (rows bip)]"

section \<open>Preprocessing\<close>

text \<open>The column loops \<^verbatim>\<open>ac[c][row_cnt] = ar[r][c]\<close> and \<^verbatim>\<open>ac[c][row_cnt] = -ar[r][c]\<close>.\<close>

definition copy_row :: "nat \<Rightarrow> nat \<Rightarrow> BIP \<Rightarrow> BIP" where
  "copy_row r row_cnt bip =
     fold (\<lambda>c b. b\<lparr>ac := (ac b)(c := (ac b c)(row_cnt := ar b r c))\<rparr>) [0..<nat (cols bip)] bip"

definition copy_row_neg :: "nat \<Rightarrow> nat \<Rightarrow> BIP \<Rightarrow> BIP" where
  "copy_row_neg r row_cnt bip =
     fold (\<lambda>c b. b\<lparr>ac := (ac b)(c := (ac b c)(row_cnt := - ar b r c))\<rparr>) [0..<nat (cols bip)] bip"

text \<open>The body of the first row loop (equations), on the model and \<^verbatim>\<open>row_cnt\<close>.\<close>

definition eq_pass_step :: "nat \<Rightarrow> BIP \<times> nat \<Rightarrow> BIP \<times> nat" where
  "eq_pass_step r = (\<lambda>(bip, row_cnt).
     if sense bip r = EQ
     then (let b1 = bip\<lparr>rhs_ord := (rhs_ord bip)(row_cnt := rhs bip r)\<rparr>;
               b2 = copy_row r row_cnt b1;
               b3 = b2\<lparr>equs := equs b2 + 1\<rparr>
           in (b3, row_cnt + 1))
     else (bip, row_cnt))"

text \<open>The body of the second row loop (the \<^verbatim>\<open>switch\<close> on the sense).\<close>

definition rest_pass_step :: "nat \<Rightarrow> BIP \<times> nat \<Rightarrow> BIP \<times> nat" where
  "rest_pass_step r = (\<lambda>(bip, row_cnt).
     case sense bip r of
       LE \<Rightarrow>
         (copy_row r row_cnt (bip\<lparr>rhs_ord := (rhs_ord bip)(row_cnt := rhs bip r)\<rparr>),
          row_cnt + 1)
     | GE \<Rightarrow>
         (copy_row_neg r row_cnt (bip\<lparr>rhs_ord := (rhs_ord bip)(row_cnt := - rhs bip r)\<rparr>),
          row_cnt + 1)
     | EQ \<Rightarrow> (bip, row_cnt))"

text \<open>
  The scaling loop. For one coefficient \<open>a\<close> and the \<^verbatim>\<open>scale\<close> so far:
  \<^verbatim>\<open>x = fabs(a) - floor(fabs(a)); if (x > 0.0) { x = ceil(-log10(x)); if (x > scale) scale = x; }\<close>.
\<close>

definition scale_of_coef :: "real \<Rightarrow> real \<Rightarrow> real" where
  "scale_of_coef a scale =
     (let x = \<bar>a\<bar> - of_int \<lfloor>\<bar>a\<bar>\<rfloor>
      in if x > 0
         then (let x = of_int \<lceil>- log 10 x\<rceil> in if x > scale then x else scale)
         else scale)"

definition row_scale :: "BIP \<Rightarrow> nat \<Rightarrow> real" where
  "row_scale bip r = fold (\<lambda>c scale. scale_of_coef (ac bip c r) scale) [0..<nat (cols bip)] 0"

definition scale_row :: "nat \<Rightarrow> BIP \<Rightarrow> BIP" where
  "scale_row r bip =
     (let scale = row_scale bip r
      in if scale > 0
         then (let scale = 10 powr scale;
                   b1 = fold (\<lambda>c b. b\<lparr>ac := (ac b)(c := (ac b c)(r := ac b c r * scale))\<rparr>)
                          [0..<nat (cols bip)] bip
               in b1\<lparr>rhs_ord := (rhs_ord b1)(r := rhs_ord b1 r * scale)\<rparr>)
         else bip)"

definition reorder :: "BIP \<Rightarrow> BIP" where
  "reorder bip =
     (let b0 = bip\<lparr>equs := 0\<rparr>;
          row_cnt = 0;
          (b1, row_cnt) = fold eq_pass_step [0..<nat (rows b0)] (b0, row_cnt);
          (b2, row_cnt) = fold rest_pass_step [0..<nat (rows b1)] (b1, row_cnt)
      in b2)"

definition bip_preprocess :: "BIP \<Rightarrow> BIP" where
  "bip_preprocess bip = (let b2 = reorder bip in fold scale_row [0..<nat (rows b2)] b2)"

section \<open>Reading a model\<close>

text \<open>
  \<^verbatim>\<open>bip_read\<close> sees its file through \<^verbatim>\<open>fgets\<close>, \<^verbatim>\<open>lfs_split_line\<close> and \<^verbatim>\<open>strtod\<close>. A file is
  here the list of its lines as \<^verbatim>\<open>lfs_split_line\<close> returns them, and a field of a line comes
  with what \<^verbatim>\<open>strtod\<close> returns for it: the value, the rest of the field from the end
  pointer on, and whether the call sets \<^verbatim>\<open>errno\<close> to \<^verbatim>\<open>ERANGE\<close>. \<^verbatim>\<open>errno\<close> is the flag
  \<^verbatim>\<open>errno == ERANGE\<close>; nothing in the reader resets it.
\<close>

datatype double = Finite real | PInf | MInf | NaN

record field =
  f_text :: string
  f_val :: double
  f_rest :: string
  f_erange :: bool

definition isnan :: "double \<Rightarrow> bool" where
  "isnan d = (d = NaN)"

definition isinf :: "double \<Rightarrow> bool" where
  "isinf d = (d = PInf \<or> d = MInf)"

text \<open>\<^verbatim>\<open>rint\<close> in the default rounding mode: to the nearest integer, ties to even.\<close>

definition rint :: "real \<Rightarrow> real" where
  "rint v =
     (let f = \<lfloor>v\<rfloor>
      in if v - of_int f < 1 / 2 then of_int f
         else if v - of_int f > 1 / 2 then of_int (f + 1)
         else if even f then of_int f else of_int (f + 1))"

text \<open>
  The conversion \<^verbatim>\<open>(int)val\<close> truncates towards zero. When the truncated value is not an
  \<^verbatim>\<open>int\<close> the C standard leaves the behaviour undefined; the conversion instruction of
  x86-64, which the compilers emit for it, returns \<^verbatim>\<open>INT_MIN\<close>.
\<close>

definition INT_MIN :: int where
  "INT_MIN = - (2 ^ 31)"

definition int_of_double :: "real \<Rightarrow> int" where
  "int_of_double v =
     (if - (2 ^ 31) - 1 < v \<and> v < 2 ^ 31 then (if v \<ge> 0 then \<lfloor>v\<rfloor> else \<lceil>v\<rceil>) else INT_MIN)"

datatype LINE_MODE = READ_ERROR | READ_COLS | READ_ROWS | READ_COEF

text \<open>
  The test of a count line, for the bound \<^verbatim>\<open>BIP_MAX_COLS\<close> or \<^verbatim>\<open>BIP_MAX_ROWS\<close>:
  \<^verbatim>\<open>errno == ERANGE || isnan(val) || isinf(val) || rint(val) != val || val < 1.0
  || (int)val > bound || *t != '\0'\<close>.
\<close>

definition bad_count :: "int \<Rightarrow> bool \<Rightarrow> field \<Rightarrow> bool" where
  "bad_count bound errno f =
     (errno \<or> isnan (f_val f) \<or> isinf (f_val f)
      \<or> (case f_val f of
            Finite v \<Rightarrow> rint v \<noteq> v \<or> v < 1 \<or> int_of_double v > bound \<or> f_rest f \<noteq> []
          | _ \<Rightarrow> True))"

text \<open>
  The test of a coefficient or right-hand side:
  \<^verbatim>\<open>errno == ERANGE || isnan(val) || isinf(val) || val > max_coef_val || val < min_coef_val
  || *t != '\0'\<close>.
\<close>

definition bad_coef :: "BIP \<Rightarrow> bool \<Rightarrow> field \<Rightarrow> bool" where
  "bad_coef bip errno f =
     (errno \<or> isnan (f_val f) \<or> isinf (f_val f)
      \<or> (case f_val f of
            Finite v \<Rightarrow> v > max_coef_val bip \<or> v < min_coef_val bip \<or> f_rest f \<noteq> []
          | _ \<Rightarrow> True))"

fun finite_val :: "double \<Rightarrow> real" where
  "finite_val (Finite v) = v"
| "finite_val _ = 0"

text \<open>
  The column loop of a coefficient line, over the column numbers still to do. It returns
  whether the line is accepted, with the model and \<^verbatim>\<open>errno\<close> as it leaves them.
\<close>

fun coef_loop :: "field list \<Rightarrow> nat list \<Rightarrow> BIP \<times> bool \<Rightarrow> bool \<times> BIP \<times> bool" where
  "coef_loop lfs [] (bip, errno) = (True, bip, errno)"
| "coef_loop lfs (col # cs) (bip, errno) =
     (if int col \<noteq> cols bip
      then (let f = lfs ! col;
                errno = (errno \<or> f_erange f)
            in if bad_coef bip errno f then (False, bip, errno)
               else (let val = finite_val (f_val f)
                     in if int col < cols bip
                        then coef_loop lfs cs
                               (bip\<lparr>ar := (ar bip)(nat (read_rows bip) :=
                                        (ar bip (nat (read_rows bip)))(col := val))\<rparr>, errno)
                        else coef_loop lfs cs
                               (bip\<lparr>rhs := (rhs bip)(nat (read_rows bip) := val)\<rparr>, errno)))
      else (let sns = f_text (lfs ! nat (cols bip))
            in if sns = ''<=''
               then coef_loop lfs cs (bip\<lparr>sense := (sense bip)(nat (read_rows bip) := LE)\<rparr>, errno)
               else if sns = ''>=''
               then coef_loop lfs cs (bip\<lparr>sense := (sense bip)(nat (read_rows bip) := GE)\<rparr>, errno)
               else if sns = ''='' \<or> sns = ''==''
               then coef_loop lfs cs (bip\<lparr>sense := (sense bip)(nat (read_rows bip) := EQ)\<rparr>, errno)
               else (False, bip, errno)))"

text \<open>
  \<^verbatim>\<open>process_line\<close>. The result is the mode for the next line with the model and \<^verbatim>\<open>errno\<close>;
  \<open>None\<close> is the \<^verbatim>\<open>abort()\<close> of the \<^verbatim>\<open>default\<close> branch.
\<close>

definition process_line ::
  "LINE_MODE \<Rightarrow> field list \<Rightarrow> BIP \<times> bool \<Rightarrow> (LINE_MODE \<times> BIP \<times> bool) option" where
  "process_line mode lfs = (\<lambda>(bip, errno).
     if length lfs > 0
     then (case mode of
             READ_COLS \<Rightarrow>
               if length lfs \<noteq> 1 then Some (READ_ERROR, bip, errno)
               else (let f = lfs ! 0; errno = (errno \<or> f_erange f)
                     in if bad_count BIP_MAX_COLS errno f then Some (READ_ERROR, bip, errno)
                        else Some (READ_ROWS,
                                   bip\<lparr>cols := int_of_double (finite_val (f_val f))\<rparr>, errno))
           | READ_ROWS \<Rightarrow>
               if length lfs \<noteq> 1 then Some (READ_ERROR, bip, errno)
               else (let f = lfs ! 0; errno = (errno \<or> f_erange f)
                     in if bad_count BIP_MAX_ROWS errno f then Some (READ_ERROR, bip, errno)
                        else Some (READ_COEF,
                                   bip\<lparr>rows := int_of_double (finite_val (f_val f))\<rparr>, errno))
           | READ_COEF \<Rightarrow>
               if read_rows bip \<ge> rows bip then Some (READ_ERROR, bip, errno)
               else if int (length lfs) \<noteq> cols bip + 2 then Some (READ_ERROR, bip, errno)
               else (case coef_loop lfs [0..<nat (cols bip + 2)] (bip, errno) of
                       (False, bip, errno) \<Rightarrow> Some (READ_ERROR, bip, errno)
                     | (True, bip, errno) \<Rightarrow>
                         Some (READ_COEF, bip\<lparr>read_rows := read_rows bip + 1\<rparr>, errno))
           | READ_ERROR \<Rightarrow> None)
     else Some (mode, bip, errno))"

text \<open>The \<^verbatim>\<open>while\<close> loop of \<^verbatim>\<open>bip_read\<close> over the lines that \<^verbatim>\<open>fgets\<close> still delivers.\<close>

fun read_loop ::
  "LINE_MODE \<Rightarrow> field list list \<Rightarrow> BIP \<times> bool \<Rightarrow> (LINE_MODE \<times> BIP \<times> bool) option" where
  "read_loop mode [] (bip, errno) = Some (mode, bip, errno)"
| "read_loop mode (lfs # rest) (bip, errno) =
     (if mode \<noteq> READ_ERROR
      then (case process_line mode lfs (bip, errno) of
              None \<Rightarrow> None
            | Some (mode, bip, errno) \<Rightarrow> read_loop mode rest (bip, errno))
      else Some (mode, bip, errno))"

text \<open>
  What a call of \<^verbatim>\<open>bip_read\<close> returns and does: the value returned, the model as it leaves
  it, and its calls of \<^verbatim>\<open>bip_can_overflow\<close> and \<^verbatim>\<open>bip_preprocess\<close>, in order. The file is
  \<open>None\<close> when \<^verbatim>\<open>fopen\<close> fails. The result \<open>None\<close> is an \<^verbatim>\<open>abort()\<close>.
\<close>

datatype call = Call_can_overflow | Call_preprocess

record read_out =
  rd_ret :: int
  rd_bip :: BIP
  rd_calls :: "call list"

definition bip_read :: "BIP \<Rightarrow> bool \<Rightarrow> field list list option \<Rightarrow> read_out option" where
  "bip_read bip errno file =
     (case file of
        None \<Rightarrow> Some \<lparr>rd_ret = - 1, rd_bip = bip, rd_calls = []\<rparr>
      | Some lines \<Rightarrow>
          (case read_loop READ_COLS lines (bip, errno) of
             None \<Rightarrow> None
           | Some (mode, bip, errno) \<Rightarrow>
               if mode = READ_ERROR then Some \<lparr>rd_ret = - 1, rd_bip = bip, rd_calls = []\<rparr>
               else if cols bip = 0 \<or> rows bip = 0 \<or> read_rows bip < rows bip
               then Some \<lparr>rd_ret = - 1, rd_bip = bip, rd_calls = []\<rparr>
               else if bip_can_overflow bip \<noteq> None
               then Some \<lparr>rd_ret = - 1, rd_bip = bip, rd_calls = [Call_can_overflow]\<rparr>
               else Some \<lparr>rd_ret = 0, rd_bip = bip_preprocess bip,
                          rd_calls = [Call_can_overflow, Call_preprocess]\<rparr>))"

section \<open>The feasibility check\<close>

text \<open>
  \<^verbatim>\<open>check_feasibility\<close> runs two scans over the residuals with one index \<^verbatim>\<open>k\<close>.
  Each scan returns the index it stopped at and, next to it, the indices whose
  residual it has read, in the order of the reads.
\<close>

function eq_scan :: "BIP \<Rightarrow> real list \<Rightarrow> int \<Rightarrow> int list \<Rightarrow> int \<times> int list" where
  "eq_scan bip r k seen =
     (if k < equs bip
      then (if r ! nat k = 0 then eq_scan bip r (k + 1) (seen @ [k]) else (k, seen @ [k]))
      else (k, seen))"
  by pat_completeness auto
termination
  by (relation "measure (\<lambda>(bip, r, k, seen). nat (equs bip - k))") auto

function le_scan :: "BIP \<Rightarrow> real list \<Rightarrow> int \<Rightarrow> int list \<Rightarrow> int \<times> int list" where
  "le_scan bip r k seen =
     (if k < rows bip
      then (if r ! nat k \<le> 0 then le_scan bip r (k + 1) (seen @ [k]) else (k, seen @ [k]))
      else (k, seen))"
  by pat_completeness auto
termination
  by (relation "measure (\<lambda>(bip, r, k, seen). nat (rows bip - k))") auto

text \<open>
  The outcome of one call: the value returned, the model and the residual array as the
  call leaves them, the residual indices read, and the solutions handed to
  \<^verbatim>\<open>report_sol\<close> so far.
\<close>

record cf_out =
  cf_ret :: int
  cf_bip :: BIP
  cf_r :: "real list"
  cf_read :: "int list"
  cf_reports :: "u32 list"

definition check_feasibility :: "BIP \<Rightarrow> u32 \<Rightarrow> real list \<Rightarrow> u32 list \<Rightarrow> cf_out" where
  "check_feasibility bip x r reported =
     (let (k, seen) = eq_scan bip r 0 [];
          (k, seen) = (if k = equs bip then le_scan bip r k seen else (k, seen))
      in if k < rows bip
         then \<lparr>cf_ret = 0, cf_bip = bip, cf_r = r, cf_read = seen, cf_reports = reported\<rparr>
         else \<lparr>cf_ret = 1, cf_bip = bip, cf_r = r, cf_read = seen,
               cf_reports = reported @ [x]\<rparr>)"

section \<open>The enumeration\<close>

definition index32 :: "u32 list" where
  "index32 =
     [ 0,  1, 28,  2, 29, 14, 24, 3, 30, 22, 20, 15, 25, 17,  4,  8,
      31, 27, 13, 23, 21, 19, 16, 7, 26, 12, 18,  6, 11,  5, 10,  9]"

definition colidx_of :: "u32 \<Rightarrow> u32" where
  "colidx_of updatemask = index32 ! unat (drop_bit 27 (updatemask * DEBRUIJN32))"

text \<open>The two residual updates, \<^verbatim>\<open>r[k] += modcol[k]\<close> and \<^verbatim>\<open>r[k] -= modcol[k]\<close> for every row.\<close>

definition add_col :: "(nat \<Rightarrow> real) \<Rightarrow> int \<Rightarrow> real list \<Rightarrow> real list" where
  "add_col modcol rws r = fold (\<lambda>k r. r[k := r ! k + modcol k]) [0..<nat rws] r"

definition sub_col :: "(nat \<Rightarrow> real) \<Rightarrow> int \<Rightarrow> real list \<Rightarrow> real list" where
  "sub_col modcol rws r = fold (\<lambda>k r. r[k := r ! k - modcol k]) [0..<nat rws] r"

text \<open>
  What a run of \<^verbatim>\<open>bip_enumerate\<close> does, besides returning \<^verbatim>\<open>sol_count\<close>: the
  arguments \<^verbatim>\<open>(x, r)\<close> of every call of \<^verbatim>\<open>check_feasibility\<close>, the \<^verbatim>\<open>updatemask\<close> of
  every flip \<^verbatim>\<open>x ^= updatemask\<close>, and the arguments of the calls of \<^verbatim>\<open>report_sol\<close>, each
  in the order of the run.
\<close>

record enum_out =
  sol_count :: int
  checks :: "(u32 \<times> real list) list"
  masks :: "u32 list"
  reports :: "u32 list"

type_synonym enum_state = "u32 \<times> u32 \<times> u32 \<times> real list \<times> enum_out"

text \<open>One pass through the body of the \<^verbatim>\<open>while\<close> loop, on \<^verbatim>\<open>(n, negn, x, r)\<close> and the run so far.\<close>

definition enum_step :: "BIP \<Rightarrow> enum_state \<Rightarrow> enum_state" where
  "enum_step bip = (\<lambda>(n, negn, x, r, out).
     let updatemask = n AND negn;
         colidx = colidx_of updatemask;
         n1 = n + 1;
         negn1 = negn - 1;
         x1 = x XOR updatemask;
         modcol = ac bip (unat colidx);
         r1 = (if x1 AND updatemask \<noteq> 0
               then add_col modcol (rows bip) r
               else sub_col modcol (rows bip) r);
         cf = check_feasibility bip x1 r1 (reports out)
     in (n1, negn1, x1, r1,
         \<lparr>sol_count = sol_count out + cf_ret cf,
          checks = checks out @ [(x1, r1)],
          masks = masks out @ [updatemask],
          reports = cf_reports cf\<rparr>))"

function enum_loop :: "BIP \<Rightarrow> enum_state \<Rightarrow> enum_state" where
  "enum_loop bip (n, negn, x, r, out) =
     (if negn \<noteq> 0 then enum_loop bip (enum_step bip (n, negn, x, r, out))
      else (n, negn, x, r, out))"
  by pat_completeness auto
termination
  by (relation "measure (\<lambda>(bip, n, negn, x, r, out). unat negn)")
     (auto simp add: enum_step_def Let_def unat_minus_one unat_gt_0)

definition bip_enumerate :: "BIP \<Rightarrow> enum_out" where
  "bip_enumerate bip =
     (if cols bip = 0
      then \<lparr>sol_count = 0, checks = [], masks = [], reports = []\<rparr>
      else
        let r = map (\<lambda>k. - rhs_ord bip k) [0..<nat (rows bip)];
            x = 0;
            n = 1;
            cf = check_feasibility bip x r [];
            out = \<lparr>sol_count = 0 + cf_ret cf, checks = [(x, r)], masks = [],
                   reports = cf_reports cf\<rparr>;
            negn = push_bit (nat (cols bip - 1)) 1;
            negn = negn + (negn - 1)
        in snd (snd (snd (snd (enum_loop bip (n, negn, x, r, out))))))"

section \<open>Reference notions\<close>

subsection \<open>The enumeration order\<close>

text \<open>The binary-reflected Gray code of a word, and the lowest set bit of a word as a mask.\<close>

definition gray :: "u32 \<Rightarrow> u32" where
  "gray w = w XOR drop_bit 1 w"

definition lowbit :: "u32 \<Rightarrow> u32" where
  "lowbit w = w AND - w"

text \<open>
  The residual of row \<open>k\<close> at the assignment \<open>x\<close>, computed from scratch: the sum of
  \<^verbatim>\<open>ac[c][k]\<close> over the bit positions \<open>c\<close> set in \<open>x\<close>, minus \<^verbatim>\<open>rhs_ord[k]\<close>.
\<close>

definition residual :: "BIP \<Rightarrow> u32 \<Rightarrow> nat \<Rightarrow> real" where
  "residual bip x k = (\<Sum>c\<leftarrow>filter (bit x) [0..<32]. ac bip c k) - rhs_ord bip k"

definition residuals :: "BIP \<Rightarrow> u32 \<Rightarrow> real list" where
  "residuals bip x = map (residual bip x) [0..<nat (rows bip)]"

text \<open>The number of bit positions in which two assignments differ.\<close>

definition hamming :: "u32 \<Rightarrow> u32 \<Rightarrow> nat" where
  "hamming x y = length (filter (\<lambda>i. bit x i \<noteq> bit y i) [0..<32])"

text \<open>Bit \<open>t\<close> is the lowest set bit of the integer \<open>k\<close>.\<close>

definition lowest_at :: "int \<Rightarrow> nat \<Rightarrow> bool" where
  "lowest_at k t \<longleftrightarrow> k AND - k = 2 ^ t \<and> k XOR (k - 1) = 2 * 2 ^ t - 1
     \<and> bit k t \<and> (\<forall>i<t. \<not> bit k i)"

text \<open>
  The state of the loop after \<open>j\<close> flips: the counters, the assignment, the residuals and
  the run so far.
\<close>

definition enum_run :: "BIP \<Rightarrow> nat \<Rightarrow> enum_state \<Rightarrow> bool" where
  "enum_run bip j s \<longleftrightarrow> (case s of (n, negn, x, r, out) \<Rightarrow>
      n = of_nat (Suc j) \<and> negn = mask (nat (cols bip)) - of_nat j
      \<and> x = gray (of_nat j) \<and> r = residuals bip x
      \<and> checks out = map (\<lambda>i. (gray (of_nat i), residuals bip (gray (of_nat i)))) [0..<Suc j]
      \<and> masks out = map (\<lambda>i. lowbit (of_nat (Suc i))) [0..<j])"

subsection \<open>The sums of the overflow guard\<close>






subsection \<open>The order and the scaling of the rows\<close>

text \<open>
  The order of the rows after preprocessing: the equality rows, then the other rows, each
  group in the order of the input.
\<close>

definition eq_rows :: "BIP \<Rightarrow> nat list" where
  "eq_rows bip = filter (\<lambda>r. sense bip r = EQ) [0..<nat (rows bip)]"

definition ineq_rows :: "BIP \<Rightarrow> nat list" where
  "ineq_rows bip = filter (\<lambda>r. sense bip r \<noteq> EQ) [0..<nat (rows bip)]"

definition row_order :: "BIP \<Rightarrow> nat list" where
  "row_order bip = eq_rows bip @ ineq_rows bip"


text \<open>A value of a row of sense \<open>s\<close>, negated when the row is a \<open>\<ge>\<close> row.\<close>

definition oriented :: "Sense \<Rightarrow> real \<Rightarrow> real" where
  "oriented s a = (if s = GE then - a else a)"

text \<open>The state of the first row loop after the rows before \<open>m\<close>.\<close>

definition eq_pass_inv :: "BIP \<Rightarrow> nat \<Rightarrow> BIP \<times> nat \<Rightarrow> bool" where
  "eq_pass_inv b0 m = (\<lambda>(b, cnt).
     cnt = length (filter (\<lambda>r. sense b0 r = EQ) [0..<m])
     \<and> ar b = ar b0 \<and> rhs b = rhs b0 \<and> sense b = sense b0 \<and> rows b = rows b0
     \<and> cols b = cols b0 \<and> equs b = equs b0 + int cnt
     \<and> (\<forall>j<cnt. rhs_ord b j = rhs b0 (filter (\<lambda>r. sense b0 r = EQ) [0..<m] ! j)
           \<and> (\<forall>c<nat (cols b0). ac b c j = ar b0 (filter (\<lambda>r. sense b0 r = EQ) [0..<m] ! j) c)))"

text \<open>The state of the second row loop after the rows before \<open>m\<close>, started at \<open>(b1, n1)\<close>.\<close>

definition rest_pass_inv :: "BIP \<Rightarrow> nat \<Rightarrow> nat \<Rightarrow> BIP \<times> nat \<Rightarrow> bool" where
  "rest_pass_inv b1 n1 m = (\<lambda>(b, cnt).
     cnt = n1 + length (filter (\<lambda>r. sense b1 r \<noteq> EQ) [0..<m])
     \<and> ar b = ar b1 \<and> rhs b = rhs b1 \<and> sense b = sense b1 \<and> rows b = rows b1
     \<and> cols b = cols b1 \<and> equs b = equs b1
     \<and> (\<forall>j<n1. rhs_ord b j = rhs_ord b1 j \<and> (\<forall>c. ac b c j = ac b1 c j))
     \<and> (\<forall>j<length (filter (\<lambda>r. sense b1 r \<noteq> EQ) [0..<m]).
           rhs_ord b (n1 + j)
             = oriented (sense b1 (filter (\<lambda>r. sense b1 r \<noteq> EQ) [0..<m] ! j))
                 (rhs b1 (filter (\<lambda>r. sense b1 r \<noteq> EQ) [0..<m] ! j))
           \<and> (\<forall>c<nat (cols b1). ac b c (n1 + j)
                 = oriented (sense b1 (filter (\<lambda>r. sense b1 r \<noteq> EQ) [0..<m] ! j))
                     (ar b1 (filter (\<lambda>r. sense b1 r \<noteq> EQ) [0..<m] ! j) c))))"

text \<open>The factor that the scaling loop applies to row \<open>r\<close>: 1 when it leaves the row alone.\<close>

definition row_factor :: "BIP \<Rightarrow> nat \<Rightarrow> real" where
  "row_factor b r = (if row_scale b r > 0 then 10 powr row_scale b r else 1)"

subsection \<open>The defects of an input line\<close>

text \<open>
  The defects of a line that claim C9 lists, for the mode and the model the reader is in: a
  wrong number of fields, a count that is not finite or outside its range (and that
  \<^verbatim>\<open>(int)\<close> can convert), a row beyond the declared number, a value that is not finite or
  outside the bounds, and a sense that is none of \<^verbatim>\<open><=\<close>, \<^verbatim>\<open>>=\<close>, \<^verbatim>\<open>=\<close>, \<^verbatim>\<open>==\<close>.
\<close>

definition count_out_of_range :: "int \<Rightarrow> field \<Rightarrow> bool" where
  "count_out_of_range bound f =
     (case f_val f of
        Finite v \<Rightarrow> v < 1 \<or> (of_int bound < v \<and> v < 2 ^ 31)
      | _ \<Rightarrow> True)"

definition value_out_of_bound :: "BIP \<Rightarrow> field \<Rightarrow> bool" where
  "value_out_of_bound bip f =
     (case f_val f of
        Finite v \<Rightarrow> v > max_coef_val bip \<or> v < min_coef_val bip
      | _ \<Rightarrow> True)"

definition defective :: "LINE_MODE \<Rightarrow> BIP \<Rightarrow> field list \<Rightarrow> bool" where
  "defective mode bip lfs \<longleftrightarrow>
     lfs \<noteq> [] \<and>
     (case mode of
        READ_COLS \<Rightarrow> length lfs \<noteq> 1 \<or> count_out_of_range BIP_MAX_COLS (lfs ! 0)
      | READ_ROWS \<Rightarrow> length lfs \<noteq> 1 \<or> count_out_of_range BIP_MAX_ROWS (lfs ! 0)
      | READ_COEF \<Rightarrow>
          read_rows bip \<ge> rows bip
          \<or> int (length lfs) \<noteq> cols bip + 2
          \<or> (\<exists>col<length lfs. int col \<noteq> cols bip \<and> value_out_of_bound bip (lfs ! col))
          \<or> (0 \<le> cols bip
              \<and> f_text (lfs ! nat (cols bip)) \<notin> {''<='', ''>='', ''='', ''==''})
      | READ_ERROR \<Rightarrow> False)"

section \<open>Example models and files\<close>


definition example_pre :: BIP where
  "example_pre = (bip_init 1)\<lparr>cols := 3, rows := 1,
      ar := (\<lambda>r c. if r = 0 \<and> c < 3 then 1 else 0),
      rhs := (\<lambda>r. if r = 0 then 2 else 0),
      ac := (\<lambda>c r. if r = 0 \<and> c < 3 then 1 else 0),
      rhs_ord := (\<lambda>r. if r = 0 then 2 else 0),
      read_rows := 1\<rparr>"

definition example_cf :: BIP where
  "example_cf = (bip_init 1)\<lparr>rows := 3, cols := 2, equs := 2\<rparr>"


text \<open>The model the reader builds from the file \<^verbatim>\<open>1 / 2 / 1 >= 1 / 2 <= 3\<close>.\<close>

definition example_mixed :: BIP where
  "example_mixed = (bip_init 1)\<lparr>cols := 1, rows := 2,
      ar := (\<lambda>r c. if c = 0 then (if r = 0 then 1 else if r = 1 then 2 else 0) else 0),
      rhs := (\<lambda>r. if r = 0 then 1 else if r = 1 then 3 else 0),
      sense := (\<lambda>r. if r = 0 then GE else LE),
      read_rows := 2\<rparr>"

text \<open>The model the reader builds from the file \<^verbatim>\<open>1 / 1 / 0.25 <= 1\<close>.\<close>

definition example_quarter :: BIP where
  "example_quarter = (bip_init 1)\<lparr>cols := 1, rows := 1,
      ar := (\<lambda>r c. if r = 0 \<and> c = 0 then 1 / 4 else 0),
      rhs := (\<lambda>r. if r = 0 then 1 else 0),
      read_rows := 1\<rparr>"

text \<open>A field that \<^verbatim>\<open>strtod\<close> reads as the number \<open>v\<close>, to its end and in range.\<close>

definition number :: "string \<Rightarrow> real \<Rightarrow> field" where
  "number s v = \<lparr>f_text = s, f_val = Finite v, f_rest = [], f_erange = False\<rparr>"

text \<open>A field that is no number: \<^verbatim>\<open>strtod\<close> returns 0 and consumes nothing.\<close>

definition token :: "string \<Rightarrow> field" where
  "token s = \<lparr>f_text = s, f_val = Finite 0, f_rest = s, f_erange = False\<rparr>"

text \<open>The file with the two lines \<^verbatim>\<open>1\<close> and \<^verbatim>\<open>10000000000\<close>: one column, \<open>10^10\<close> rows, no row.\<close>

definition example_huge_rows :: "field list list" where
  "example_huge_rows = [[number ''1'' 1], [number ''10000000000'' (10 ^ 10)]]"

section \<open>Bit arithmetic of the loop counters\<close>

lemma bit_odd_int: "bit (1 + 2 * a) n \<longleftrightarrow> n = 0 \<or> bit a (n - 1)" for a :: int
  by (cases n) (simp_all add: bit_0 bit_Suc)

lemma bit_even_int: "bit (2 * a) n \<longleftrightarrow> n \<noteq> 0 \<and> bit a (n - 1)" for a :: int
  by (cases n) (simp_all add: bit_0 bit_Suc)

lemma and_dbl: "(2 * a) AND (2 * b) = 2 * (a AND b)" for a b :: int
  by (rule bit_eqI) (auto simp add: bit_and_iff bit_even_int)

lemma and_dbl1: "(1 + 2 * a) AND (1 + 2 * b) = 1 + 2 * (a AND b)" for a b :: int
  by (rule bit_eqI) (auto simp add: bit_and_iff bit_odd_int)

lemma xor_dbl01: "(2 * a) XOR (1 + 2 * b) = 1 + 2 * (a XOR b)" for a b :: int
  by (rule bit_eqI) (auto simp add: bit_xor_iff bit_odd_int bit_even_int)

lemma xor_dbl10: "(1 + 2 * a) XOR (2 * a) = 1" for a :: int
  by (rule bit_eqI) (auto simp add: bit_xor_iff bit_odd_int bit_even_int bit_1_iff)

lemma lowbit_odd_int: "(1 + 2 * k) AND - (1 + 2 * k) = (1::int)"
proof -
  have e: "- (1 + 2 * k) = 1 + 2 * (NOT k)" by (simp add: not_int_def)
  show ?thesis unfolding e and_dbl1 by simp
qed

lemma lowbit_even_int: "(2 * k) AND - (2 * k) = 2 * (k AND - k)" for k :: int
proof -
  have e: "- (2 * k) = 2 * (- k)" by simp
  show ?thesis unfolding e and_dbl ..
qed

lemma dec_xor_even_int: "(2 * k) XOR (2 * k - 1) = 1 + 2 * (k XOR (k - 1))" for k :: int
proof -
  have e: "2 * k - 1 = 1 + 2 * (k - 1)" by simp
  show ?thesis unfolding e xor_dbl01 ..
qed

lemma dec_xor_odd_int: "(1 + 2 * k) XOR (1 + 2 * k - 1) = (1::int)"
proof -
  have e: "1 + 2 * k - 1 = 2 * k" by simp
  show ?thesis unfolding e xor_dbl10 ..
qed

lemma lowest_at_even: "lowest_at k t \<Longrightarrow> lowest_at (2 * k) (Suc t)"
  unfolding lowest_at_def lowbit_even_int dec_xor_even_int
  by (auto simp add: bit_even_int)

lemma lowest_at_odd: "lowest_at (1 + 2 * k) 0"
  unfolding lowest_at_def lowbit_odd_int dec_xor_odd_int
  by (simp add: bit_odd_int)

lemma lowbit_pow2_int: "0 < k \<Longrightarrow> \<exists>t. lowest_at k t" for k :: int
proof (induction k rule: int_bit_induct)
  case zero
  then show ?case by simp
next
  case minus
  then show ?case by simp
next
  case (even k)
  then have "0 < k" by simp
  with even.IH obtain t where "lowest_at k t" by blast
  then have "lowest_at (2 * k) (Suc t)" by (rule lowest_at_even)
  then show ?case by (auto simp only: mult.commute [of k 2])
next
  case (odd k)
  have "lowest_at (1 + 2 * k) 0" by (rule lowest_at_odd)
  then show ?case by (auto simp only: mult.commute [of k 2] add.commute [of 1])
qed

lemma mask_xor_half: "(2 * 2 ^ t - 1) XOR drop_bit 1 (2 * 2 ^ t - 1) = (2 ^ t :: int)"
proof -
  have a: "(2 * 2 ^ t - 1 :: int) = mask (Suc t)" by (simp add: mask_eq_exp_minus_1)
  show ?thesis
    unfolding a
    by (rule bit_eqI) (auto simp add: bit_simps less_Suc_eq)
qed

lemma gray_step_int:
  "0 < k \<Longrightarrow> (k XOR drop_bit 1 k) XOR ((k - 1) XOR drop_bit 1 (k - 1)) = k AND - k" for k :: int
proof -
  assume k: "0 < k"
  obtain t where t: "k AND - k = 2 ^ t" "k XOR (k - 1) = 2 * 2 ^ t - 1"
    using lowbit_pow2_int [OF k] unfolding lowest_at_def by blast
  have "(k XOR drop_bit 1 k) XOR ((k - 1) XOR drop_bit 1 (k - 1))
      = (k XOR (k - 1)) XOR drop_bit 1 (k XOR (k - 1))"
    by (simp add: xor.commute xor.left_commute xor.assoc)
  also have "\<dots> = 2 ^ t" unfolding t(2) by (rule mask_xor_half)
  finally show ?thesis using t(1) by simp
qed

lemma uint_dec: "w \<noteq> 0 \<Longrightarrow> uint (w - 1) = uint w - 1" for w :: u32
  by (smt (verit, best) uint_sub_lem unsigned_1 unsigned_eq_0_iff unsigned_greater_eq)

lemma gray_uint: "uint (gray w) = uint w XOR drop_bit 1 (uint w)"
  by (metis (mono_tags, lifting) gray_def of_nat_drop_bit of_nat_unat
    unat_drop_bit_eq unsigned_xor_eq)

lemma lowbit_uint: "w AND - w = word_of_int (uint w AND - uint w)" for w :: u32
  by (metis word_minus_def word_of_int_uint word_wi_log_defs(2))

lemma gray_wi: "gray w = word_of_int (uint w XOR drop_bit 1 (uint w))"
  by (metis gray_uint word_of_int_uint)

lemma gray_step_word: "w \<noteq> 0 \<Longrightarrow> gray (w - 1) XOR (w AND - w) = gray w"
proof -
  assume w: "w \<noteq> 0"
  define k where "k = uint w"
  have k: "0 < k" using w unfolding k_def by (simp add: word_greater_zero_iff [symmetric] word_less_def)
  have a: "((k - 1) XOR drop_bit 1 (k - 1)) XOR (k AND - k) = k XOR drop_bit 1 k"
    using gray_step_int [OF k] by (metis xor.assoc xor.commute xor_self_eq xor.right_neutral)
  have "gray (w - 1) XOR (w AND - w)
      = word_of_int ((k - 1) XOR drop_bit 1 (k - 1)) XOR word_of_int (k AND - k)"
    unfolding gray_wi uint_dec [OF w] k_def lowbit_uint [symmetric] ..
  also have "\<dots> = word_of_int (((k - 1) XOR drop_bit 1 (k - 1)) XOR (k AND - k))"
    by (simp add: word_wi_log_defs)
  also have "\<dots> = word_of_int (k XOR drop_bit 1 k)" by (simp only: a)
  also have "\<dots> = gray w" by (simp only: gray_wi k_def)
  finally show ?thesis .
qed

lemma lowbit_word:
  "w \<noteq> 0 \<Longrightarrow> \<exists>t<32. w AND - w = push_bit t 1 \<and> bit w t \<and> (\<forall>i<t. \<not> bit w i)" for w :: u32
proof -
  assume w: "w \<noteq> 0"
  define k where "k = uint w"
  have k: "0 < k" using w unfolding k_def by (simp add: word_greater_zero_iff [symmetric] word_less_def)
  obtain t where t: "lowest_at k t" using lowbit_pow2_int [OF k] by blast
  have b: "bit w i \<longleftrightarrow> bit k i" for i
    unfolding k_def by (auto simp add: bit_uint_iff dest: bit_imp_le_length)
  have "bit w t" using t unfolding lowest_at_def b by simp
  then have t32: "t < 32" by (auto dest: bit_imp_le_length)
  have "w AND - w = word_of_int (2 ^ t)"
    using t unfolding lowest_at_def lowbit_uint k_def by simp
  then have "w AND - w = push_bit t 1" by simp
  moreover have "\<forall>i<t. \<not> bit w i" using t unfolding lowest_at_def b by simp
  ultimately show ?thesis using t32 \<open>bit w t\<close> by blast
qed

lemma gray_inj: "gray a = gray b \<Longrightarrow> a = b"
proof -
  assume e: "gray a = gray b"
  have g: "bit (gray w) i \<longleftrightarrow> (bit w i \<noteq> bit w (Suc i))" for w i
    unfolding gray_def by (auto simp add: bit_xor_iff bit_drop_bit_eq dest: bit_imp_le_length)
  have "bit a (32 - d) = bit b (32 - d)" if "d \<le> 32" for d
    using that
  proof (induction d)
    case 0
    then show ?case by (auto dest: bit_imp_le_length)
  next
    case (Suc d)
    then have s: "Suc (32 - Suc d) = 32 - d" by simp
    have "bit (gray a) (32 - Suc d) = bit (gray b) (32 - Suc d)" using e by simp
    then show ?case unfolding g s using Suc by auto
  qed
  then have "bit a i = bit b i" if "i \<le> 32" for i
    using that by (metis diff_diff_cancel diff_le_self)
  moreover have "bit a i = bit b i" if "\<not> i \<le> 32" for i
    using that by (auto dest: bit_imp_le_length)
  ultimately show ?thesis by (intro bit_eqI) blast
qed

lemma take_bit_plus_exp_int: "take_bit c (z + 2 ^ c) = take_bit c z" for z :: int
  using take_bit_add [of c z "2 ^ c"] by simp

lemma and_take_bit_int: "take_bit c n = n \<Longrightarrow> n AND z = n AND take_bit c z" for n :: int
proof -
  assume "take_bit c n = n"
  then have "n AND z = (n AND mask c) AND z" by (simp add: take_bit_eq_mask)
  also have "\<dots> = n AND (z AND mask c)" by (simp add: ac_simps)
  finally show ?thesis by (simp add: take_bit_eq_mask)
qed

lemma and_negn_int: "take_bit c k = k \<Longrightarrow> k AND (2 ^ c - k) = k AND - k" for k :: int
proof -
  assume k: "take_bit c k = k"
  have "take_bit c (2 ^ c - k) = take_bit c (- k)"
    using take_bit_plus_exp_int [of c "- k"] by simp
  then show ?thesis
    using and_take_bit_int [OF k, of "2 ^ c - k"] and_take_bit_int [OF k, of "- k"] by simp
qed

lemma and_negn:
  "take_bit c n = n \<Longrightarrow> n AND (mask c - (n - 1)) = n AND - n" for n :: u32
proof -
  assume n: "take_bit c n = n"
  have "take_bit c (uint n) = uint n"
    using n by (metis unsigned_take_bit_eq)
  then have k: "uint n AND (2 ^ c - uint n) = uint n AND - uint n" by (rule and_negn_int)
  have "mask c - (n - 1) = (2 ^ c - 1) - (n - 1)" by (simp only: mask_eq_exp_minus_1)
  also have "\<dots> = 2 ^ c - n" by simp
  also have "\<dots> = word_of_int (2 ^ c - uint n)" by simp
  finally have m: "mask c - (n - 1) = word_of_int (2 ^ c - uint n)" .
  have "n AND (mask c - (n - 1)) = word_of_int (uint n) AND word_of_int (2 ^ c - uint n)"
    by (simp only: m word_of_int_uint)
  also have "\<dots> = word_of_int (uint n AND (2 ^ c - uint n))" by (simp only: word_wi_log_defs)
  also have "\<dots> = n AND - n" by (simp only: k lowbit_uint)
  finally show ?thesis .
qed

section \<open>The De Bruijn lookup\<close>

lemma index32_table:
  "map (\<lambda>i. unat (colidx_of (push_bit i 1))) [0..<32] = [0..<32]"
  by code_simp

lemma colidx_push_bit: "i \<le> 31 \<Longrightarrow> unat (colidx_of (push_bit i 1)) = i"
proof -
  assume i: "i \<le> 31"
  then have "i < length [0..<32::nat]" by simp
  then have "map (\<lambda>i. unat (colidx_of (push_bit i 1))) [0..<32] ! i = [0..<32] ! i"
    by (simp only: index32_table)
  with i show ?thesis by (simp del: upt_Suc)
qed

text \<open>
  C3. For every \<open>i\<close> from 0 to 31 the lookup \<^verbatim>\<open>index32[((1u << i) * DEBRUIJN32) >> 27]\<close>,
  with the product taken modulo \<open>2^32\<close>, is \<open>i\<close>: the column index computed from an
  update mask with one bit set is the position of that bit.
\<close>

theorem C3_debruijn_lookup:
  "i \<le> 31 \<Longrightarrow>
     unat (index32 ! unat (drop_bit 27 (push_bit i 1 * DEBRUIJN32))) = i
     \<and> colidx_of (push_bit i 1) = of_nat i
     \<and> (\<forall>j. bit (push_bit i 1 :: u32) j \<longleftrightarrow> j = i)"
proof -
  assume i: "i \<le> 31"
  then have u: "unat (colidx_of (push_bit i 1)) = i" by (rule colidx_push_bit)
  then have "of_nat (unat (colidx_of (push_bit i 1))) = (of_nat i :: u32)" by simp
  then have c: "colidx_of (push_bit i 1) = of_nat i" by simp
  have b: "\<forall>j. bit (push_bit i 1 :: u32) j \<longleftrightarrow> j = i"
    using i by (auto simp add: bit_exp_iff)
  from u c b show ?thesis by (simp add: colidx_of_def)
qed

theorem C3_debruijn_lookup_witness:
  "unat (index32 ! unat (drop_bit 27 (push_bit 5 1 * DEBRUIJN32))) = 5
     \<and> colidx_of (push_bit 5 1) = 5
     \<and> (\<forall>j. bit (push_bit 5 1 :: u32) j \<longleftrightarrow> j = 5)"
  using C3_debruijn_lookup [of 5] by simp

section \<open>The run of the enumeration\<close>

lemma fold_update_upt:
  "m \<le> length r \<Longrightarrow>
     fold (\<lambda>k r. r[k := f k (r ! k)]) [0..<m] r = map (\<lambda>k. f k (r ! k)) [0..<m] @ drop m r"
proof (induction m)
  case 0
  then show ?case by simp
next
  case (Suc m)
  then have m: "m < length r" by simp
  have "fold (\<lambda>k r. r[k := f k (r ! k)]) [0..<Suc m] r
      = (map (\<lambda>k. f k (r ! k)) [0..<m] @ drop m r)[m := f m ((map (\<lambda>k. f k (r ! k)) [0..<m] @ drop m r) ! m)]"
    using Suc by simp
  also have "\<dots> = map (\<lambda>k. f k (r ! k)) [0..<m] @ (drop m r)[0 := f m (r ! m)]"
    using m by (simp add: list_update_append nth_append)
  also have "(drop m r)[0 := f m (r ! m)] = f m (r ! m) # drop (Suc m) r"
    using m by (simp add: Cons_nth_drop_Suc [symmetric])
  finally show ?case by simp
qed

lemma add_col_map:
  "length r = nat rws \<Longrightarrow> add_col modcol rws r = map (\<lambda>k. r ! k + modcol k) [0..<nat rws]"
  unfolding add_col_def using fold_update_upt [of "nat rws" r "\<lambda>k v. v + modcol k"] by simp

lemma sub_col_map:
  "length r = nat rws \<Longrightarrow> sub_col modcol rws r = map (\<lambda>k. r ! k - modcol k) [0..<nat rws]"
  unfolding sub_col_def using fold_update_upt [of "nat rws" r "\<lambda>k v. v - modcol k"] by simp

lemma bit_flip: "t < 32 \<Longrightarrow> bit (x XOR 2 ^ t) c \<longleftrightarrow> (bit x c \<noteq> (c = t))" for x :: u32
  by (auto simp add: bit_xor_iff bit_exp_iff)

lemma residual_sum:
  "residual bip x k = (\<Sum>c = 0..<32. if bit x c then ac bip c k else 0) - rhs_ord bip k"
  unfolding residual_def
  by (simp only: sum_list_map_filter' interv_sum_list_conv_sum_set_nat set_upt)

lemma residual_flip:
  assumes t: "t < 32"
  shows "residual bip (x XOR 2 ^ t) k =
     (if bit (x XOR 2 ^ t) t then residual bip x k + ac bip t k
      else residual bip x k - ac bip t k)"
proof -
  let ?y = "x XOR 2 ^ t"
  have t': "t \<in> {0..<32}" using t by simp
  have rest: "(\<Sum>c \<in> {0..<32} - {t}. if bit ?y c then ac bip c k else 0)
      = (\<Sum>c \<in> {0..<32} - {t}. if bit x c then ac bip c k else 0)"
    by (rule sum.cong) (auto simp add: bit_flip [OF t])
  have a: "(\<Sum>c = 0..<32. if bit ?y c then ac bip c k else 0)
      = (if bit ?y t then ac bip t k else 0)
        + (\<Sum>c \<in> {0..<32} - {t}. if bit x c then ac bip c k else 0)"
    by (simp only: sum.remove [OF _ t', simplified] rest)
  have b: "(\<Sum>c = 0..<32. if bit x c then ac bip c k else 0)
      = (if bit x t then ac bip t k else 0)
        + (\<Sum>c \<in> {0..<32} - {t}. if bit x c then ac bip c k else 0)"
    by (simp only: sum.remove [OF _ t', simplified])
  have f: "bit ?y t \<longleftrightarrow> \<not> bit x t" by (simp add: bit_flip [OF t])
  show ?thesis unfolding residual_sum a b f by simp
qed

lemma residuals_flip:
  assumes t: "t < 32"
  shows "residuals bip (x XOR 2 ^ t) =
     (if (x XOR 2 ^ t) AND 2 ^ t \<noteq> 0 then add_col (ac bip t) (rows bip) (residuals bip x)
      else sub_col (ac bip t) (rows bip) (residuals bip x))"
proof -
  have l: "length (residuals bip x) = nat (rows bip)" by (simp add: residuals_def)
  have b: "(x XOR 2 ^ t) AND 2 ^ t \<noteq> 0 \<longleftrightarrow> bit (x XOR 2 ^ t) t"
    by (simp add: and_exp_eq_0_iff_not_bit)
  show ?thesis
    unfolding add_col_map [OF l] sub_col_map [OF l] b
    by (auto simp add: residuals_def residual_flip [OF t])
qed

lemma of_nat_take_bit_self:
  "m < 2 ^ c \<Longrightarrow> take_bit c (of_nat m :: u32) = of_nat m"
  by (metis take_bit_nat_eq_self_iff take_bit_of_nat)

lemma unat_of_nat_small: "m < 2 ^ c \<Longrightarrow> c \<le> 32 \<Longrightarrow> unat (of_nat m :: u32) = m"
proof -
  assume "m < 2 ^ c" "c \<le> 32"
  then have "(2::nat) ^ c \<le> 2 ^ 32" by (intro power_increasing) simp_all
  with \<open>m < 2 ^ c\<close> have "m < 2 ^ 32" by simp
  then show ?thesis by (simp add: unat_of_nat)
qed

lemma of_nat_neq_0: "0 < m \<Longrightarrow> m < 2 ^ c \<Longrightarrow> c \<le> 32 \<Longrightarrow> (of_nat m :: u32) \<noteq> 0"
  using unat_of_nat_small [of m c] by (auto simp del: of_nat_eq_0_iff) 

lemma enum_step_run:
  assumes c: "cols bip \<le> 32"
    and j: "Suc j < 2 ^ nat (cols bip)"
    and inv: "enum_run bip j s"
  shows "enum_run bip (Suc j) (enum_step bip s)"
proof -
  define n :: u32 where "n = of_nat (Suc j)"
  define cl where "cl = nat (cols bip)"
  have cl: "cl \<le> 32" using c by (simp add: cl_def)
  have j': "Suc j < 2 ^ cl" using j by (simp add: cl_def)
  have n0: "n \<noteq> 0" unfolding n_def using of_nat_neq_0 [OF _ j' cl] by simp
  have tb: "take_bit cl n = n" unfolding n_def using j' by (rule of_nat_take_bit_self)
  have pred: "n - 1 = of_nat j" by (simp add: n_def)
  have um: "n AND (mask cl - of_nat j) = lowbit n"
    using and_negn [OF tb] by (simp only: pred lowbit_def)
  obtain t where t: "t < 32" "n AND - n = push_bit t 1" "bit n t"
    using lowbit_word [OF n0] by blast
  then have lb: "lowbit n = 2 ^ t" by (simp add: lowbit_def)
  have ci: "unat (colidx_of (2 ^ t)) = t"
    using colidx_push_bit [of t] t(1) by simp
  have g: "gray (of_nat j) XOR 2 ^ t = gray n"
    using gray_step_word [OF n0] by (simp only: pred t(2)) simp
  obtain n' negn x r out where s: "s = (n', negn, x, r, out)" by (cases s)
  from inv have i: "n' = n" "negn = mask cl - of_nat j" "x = gray (of_nat j)"
    "r = residuals bip (gray (of_nat j))"
    "checks out = map (\<lambda>i. (gray (of_nat i), residuals bip (gray (of_nat i)))) [0..<Suc j]"
    "masks out = map (\<lambda>i. lowbit (of_nat (Suc i))) [0..<j]"
    by (simp_all add: enum_run_def s n_def cl_def)
  have r1: "(if gray n AND 2 ^ t \<noteq> 0
             then add_col (ac bip t) (rows bip) (residuals bip (gray (of_nat j)))
             else sub_col (ac bip t) (rows bip) (residuals bip (gray (of_nat j))))
           = residuals bip (gray n)"
    using residuals_flip [OF t(1), of bip "gray (of_nat j)"] by (simp only: g)
  let ?cf = "check_feasibility bip (gray n) (residuals bip (gray n)) (reports out)"
  have st: "enum_step bip (n, mask cl - of_nat j, gray (of_nat j),
                residuals bip (gray (of_nat j)), out)
      = (n + 1, mask cl - of_nat j - 1, gray n, residuals bip (gray n),
         \<lparr>sol_count = sol_count out + cf_ret ?cf,
          checks = checks out @ [(gray n, residuals bip (gray n))],
          masks = masks out @ [lowbit n],
          reports = cf_reports ?cf\<rparr>)"
    by (simp only: enum_step_def prod.case Let_def um lb ci g r1)
  have n1: "n + 1 = of_nat (Suc (Suc j))" by (simp add: n_def)
  have negn1: "mask cl - of_nat j - 1 = mask cl - (of_nat (Suc j) :: u32)" by simp
  show ?thesis
    unfolding s i(1-4) st n1 negn1
    by (simp add: enum_run_def i(5,6) cl_def n_def del: of_nat_Suc)
qed

lemma enum_run_init:
  assumes c: "1 \<le> cols bip"
  shows "enum_run bip 0 (1, push_bit (nat (cols bip - 1)) 1 + (push_bit (nat (cols bip - 1)) 1 - 1), 0,
     map (\<lambda>k. - rhs_ord bip k) [0..<nat (rows bip)],
     \<lparr>sol_count = sc, checks = [(0, map (\<lambda>k. - rhs_ord bip k) [0..<nat (rows bip)])],
      masks = [], reports = rp\<rparr>)"
proof -
  have "nat (cols bip) = Suc (nat (cols bip - 1))" using c by simp
  then have m: "mask (nat (cols bip)) = (2 ^ nat (cols bip - 1) + (2 ^ nat (cols bip - 1) - 1) :: u32)"
    by (simp add: mask_eq_exp_minus_1)
  have r: "residuals bip 0 = map (\<lambda>k. - rhs_ord bip k) [0..<nat (rows bip)]"
    by (simp add: residuals_def residual_def)
  show ?thesis by (simp add: enum_run_def m r gray_def)
qed

lemma mask_minus_eq_0:
  assumes c: "c \<le> 32" and j: "j < 2 ^ c"
  shows "mask c - (of_nat j :: u32) = 0 \<longleftrightarrow> j = 2 ^ c - 1"
proof -
  have "(of_nat (2 ^ c - 1) :: u32) = mask c"
    by (simp add: mask_eq_exp_minus_1 of_nat_diff)
  moreover have "unat (of_nat (2 ^ c - 1) :: u32) = 2 ^ c - 1"
    by (rule unat_of_nat_small [OF _ c]) simp
  moreover have "unat (of_nat j :: u32) = j" using j c by (rule unat_of_nat_small)
  ultimately show ?thesis by (metis right_minus_eq)
qed

lemma enum_loop_run:
  "cols bip \<le> 32 \<Longrightarrow> j < 2 ^ nat (cols bip) \<Longrightarrow> enum_run bip j s
     \<Longrightarrow> enum_run bip (2 ^ nat (cols bip) - 1) (enum_loop bip s)"
proof (induction bip s arbitrary: j rule: enum_loop.induct)
  case (1 bip n negn x r out)
  from "1.prems"(3) have negn: "negn = mask (nat (cols bip)) - of_nat j"
    by (simp add: enum_run_def)
  have z: "negn = 0 \<longleftrightarrow> j = 2 ^ nat (cols bip) - 1"
    unfolding negn using "1.prems"(1,2) by (intro mask_minus_eq_0) simp_all
  show ?case
  proof (cases "negn = 0")
    case True
    with z "1.prems"(3) show ?thesis by simp
  next
    case False
    with z "1.prems"(2) have j: "Suc j < 2 ^ nat (cols bip)" by simp
    have "enum_run bip (Suc j) (enum_step bip (n, negn, x, r, out))"
      using "1.prems"(1) j "1.prems"(3) by (rule enum_step_run)
    with "1.IH" [OF False "1.prems"(1) _ this] j False show ?thesis by simp
  qed
qed

lemma bip_enumerate_run:
  assumes c: "1 \<le> cols bip" "cols bip \<le> 32"
  shows "checks (bip_enumerate bip) =
           map (\<lambda>i. (gray (of_nat i), residuals bip (gray (of_nat i)))) [0..<2 ^ nat (cols bip)]"
    and "masks (bip_enumerate bip) = map (\<lambda>i. lowbit (of_nat (Suc i))) [0..<2 ^ nat (cols bip) - 1]"
proof -
  let ?r = "map (\<lambda>k. - rhs_ord bip k) [0..<nat (rows bip)]"
  let ?cf = "check_feasibility bip 0 ?r []"
  let ?out = "\<lparr>sol_count = 0 + cf_ret ?cf, checks = [(0, ?r)], masks = [], reports = cf_reports ?cf\<rparr>"
  let ?negn = "push_bit (nat (cols bip - 1)) 1 + (push_bit (nat (cols bip - 1)) 1 - 1) :: u32"
  let ?s = "enum_loop bip (1, ?negn, 0, ?r, ?out)"
  have "enum_run bip 0 (1, ?negn, 0, ?r, ?out)" using c(1) by (rule enum_run_init)
  then have run: "enum_run bip (2 ^ nat (cols bip) - 1) ?s"
    using c(2) by (intro enum_loop_run) simp_all
  have e: "bip_enumerate bip = snd (snd (snd (snd ?s)))"
    using c(1) by (simp add: bip_enumerate_def Let_def)
  obtain n negn x r out where s: "?s = (n, negn, x, r, out)" by (cases ?s)
  have p: "Suc (2 ^ nat (cols bip) - 1) = (2::nat) ^ nat (cols bip)" by simp
  from run show "checks (bip_enumerate bip) =
           map (\<lambda>i. (gray (of_nat i), residuals bip (gray (of_nat i)))) [0..<2 ^ nat (cols bip)]"
    unfolding e s by (simp only: enum_run_def prod.case snd_conv p)
  from run show "masks (bip_enumerate bip) =
      map (\<lambda>i. lowbit (of_nat (Suc i))) [0..<2 ^ nat (cols bip) - 1]"
    unfolding e s by (simp only: enum_run_def prod.case snd_conv)
qed

lemma hamming_flip: "t < 32 \<Longrightarrow> hamming x (x XOR 2 ^ t) = 1"
proof -
  assume t: "t < 32"
  have "{i. bit x i \<noteq> bit (x XOR 2 ^ t) i} \<inter> set [0..<32] = {t}"
    using t by (auto simp add: bit_flip)
  then show ?thesis by (simp add: hamming_def distinct_length_filter del: set_upt)
qed

lemma gray_take_bit: "take_bit c w = w \<Longrightarrow> take_bit c (gray w) = gray w"
proof -
  assume w: "take_bit c w = w"
  have a: "bit w i \<Longrightarrow> i < c" for i using w by (metis bit_take_bit_iff)
  have b: "bit w (Suc i) \<Longrightarrow> i < c" for i using a [of "Suc i"] by simp
  from a b show ?thesis
    unfolding gray_def
    by (intro bit_eqI) (auto simp add: bit_take_bit_iff bit_xor_iff bit_drop_bit_eq)
qed

lemma gray_succ:
  assumes c: "c \<le> 32" and i: "Suc i < 2 ^ c"
  shows "\<exists>t<c. lowbit (of_nat (Suc i)) = 2 ^ t
           \<and> gray (of_nat (Suc i)) = gray (of_nat i) XOR 2 ^ t
           \<and> bit (of_nat (Suc i) :: u32) t \<and> (\<forall>l<t. \<not> bit (of_nat (Suc i) :: u32) l)"
proof -
  define n :: u32 where "n = of_nat (Suc i)"
  have n0: "n \<noteq> 0" unfolding n_def using of_nat_neq_0 [OF _ i c] by simp
  have tb: "take_bit c n = n" unfolding n_def using i by (rule of_nat_take_bit_self)
  have pred: "n - 1 = of_nat i" by (simp add: n_def)
  obtain t where t: "t < 32" "n AND - n = push_bit t 1" "bit n t" "\<forall>l<t. \<not> bit n l"
    using lowbit_word [OF n0] by blast
  have "t < c" using tb t(3) by (metis bit_take_bit_iff)
  moreover have "lowbit n = 2 ^ t" using t(2) by (simp add: lowbit_def)
  moreover have "gray n = gray (of_nat i) XOR 2 ^ t"
    using gray_step_word [OF n0] by (simp only: pred t(2)) simp
  ultimately show ?thesis using t(3,4) unfolding n_def by blast
qed

lemma gray_of_nat_inj:
  assumes c: "c \<le> 32"
  shows "inj_on (\<lambda>i. gray (of_nat i)) {0..<2 ^ c}"
proof (rule inj_onI)
  fix a b :: nat
  assume a: "a \<in> {0..<2 ^ c}" and b: "b \<in> {0..<2 ^ c}"
    and e: "gray (of_nat a) = gray (of_nat b)"
  from e have "(of_nat a :: u32) = of_nat b" by (rule gray_inj)
  then have "unat (of_nat a :: u32) = unat (of_nat b :: u32)" by simp
  then show "a = b" using a b c by (simp add: unat_of_nat_small)
qed

lemma assignments_of_nat:
  assumes c: "c \<le> 32"
  shows "{x :: u32. take_bit c x = x} = of_nat ` {0..<2 ^ c}"
proof (intro set_eqI iffI)
  fix x :: u32
  assume "x \<in> {x. take_bit c x = x}"
  then have x: "take_bit c x = x" by (simp only: mem_Collect_eq)
  have "take_bit c (unat x) = unat (take_bit c x)" by (simp only: unsigned_take_bit_eq)
  then have "take_bit c (unat x) = unat x" by (simp only: x)
  then have "unat x < 2 ^ c" by (simp only: take_bit_nat_eq_self_iff)
  then have "unat x \<in> {0..<2 ^ c}" by simp
  then have "of_nat (unat x) \<in> (of_nat ` {0..<2 ^ c} :: u32 set)" by (rule imageI)
  then show "x \<in> of_nat ` {0..<2 ^ c}" by (simp only: of_nat_unat ucast_id)
next
  fix x :: u32
  assume "x \<in> of_nat ` {0..<2 ^ c}"
  then obtain m where "m < 2 ^ c" "x = of_nat m" by auto
  then show "x \<in> {x. take_bit c x = x}" by (simp only: mem_Collect_eq of_nat_take_bit_self)
qed

lemma gray_covers:
  assumes c: "c \<le> 32"
  shows "set (map (\<lambda>i. gray (of_nat i)) [0..<2 ^ c]) = {x :: u32. take_bit c x = x}"
proof -
  let ?A = "{x :: u32. take_bit c x = x}"
  have f: "finite ?A" by simp
  have "gray ` ?A \<subseteq> ?A" using gray_take_bit by blast
  moreover have "inj_on gray ?A" using gray_inj by (blast intro: inj_onI)
  ultimately have "gray ` ?A = ?A" using f by (intro endo_inj_surj)
  then have "gray ` of_nat ` {0..<2 ^ c} = ?A" by (simp only: assignments_of_nat [OF c])
  moreover have "set (map (\<lambda>i. gray (of_nat i)) [0..<2 ^ c]) = gray ` of_nat ` {0..<2 ^ c}"
    by (simp only: set_map set_upt image_image)
  ultimately show ?thesis by (simp only:)
qed

lemma checks_nth:
  assumes c: "1 \<le> cols bip" "cols bip \<le> 32" and i: "i < 2 ^ nat (cols bip)"
  shows "checks (bip_enumerate bip) ! i = (gray (of_nat i), residuals bip (gray (of_nat i)))"
  unfolding bip_enumerate_run(1) [OF c] using i by simp

lemma masks_nth:
  assumes c: "1 \<le> cols bip" "cols bip \<le> 32" and i: "Suc i < 2 ^ nat (cols bip)"
  shows "masks (bip_enumerate bip) ! i = lowbit (of_nat (Suc i))"
proof -
  from i have "i < 2 ^ nat (cols bip) - 1" by simp
  then show ?thesis unfolding bip_enumerate_run(2) [OF c] by (simp del: of_nat_Suc)
qed

text \<open>
  C1. For a model with \<open>1 \<le> cols \<le> 32\<close>, \<^verbatim>\<open>bip_enumerate\<close> checks exactly \<open>2^cols\<close>
  assignments, no assignment twice and every assignment of \<open>cols\<close> bits once; the first
  one is \<open>x = 0\<close>; the loop then makes exactly \<open>2^cols - 1\<close> flips, each one taking the
  assignment checked before to the one checked next, and the two differ in exactly one bit.
\<close>

theorem C1_enumerate_visits_all:
  assumes c: "1 \<le> cols bip" "cols bip \<le> 32"
  shows "length (checks (bip_enumerate bip)) = 2 ^ nat (cols bip)
    \<and> distinct (map fst (checks (bip_enumerate bip)))
    \<and> set (map fst (checks (bip_enumerate bip))) = {x. take_bit (nat (cols bip)) x = x}
    \<and> fst (checks (bip_enumerate bip) ! 0) = 0
    \<and> length (masks (bip_enumerate bip)) = 2 ^ nat (cols bip) - 1
    \<and> (\<forall>i. Suc i < 2 ^ nat (cols bip) \<longrightarrow>
          fst (checks (bip_enumerate bip) ! Suc i)
            = fst (checks (bip_enumerate bip) ! i) XOR masks (bip_enumerate bip) ! i
          \<and> hamming (fst (checks (bip_enumerate bip) ! i))
               (fst (checks (bip_enumerate bip) ! Suc i)) = 1)"
proof -
  let ?c = "nat (cols bip)"
  let ?E = "bip_enumerate bip"
  have c32: "?c \<le> 32" using c(2) by simp
  have xs: "map fst (checks ?E) = map (\<lambda>i. gray (of_nat i)) [0..<2 ^ ?c]"
    unfolding bip_enumerate_run(1) [OF c] by (simp add: comp_def)
  have len: "length (checks ?E) = 2 ^ ?c"
    unfolding bip_enumerate_run(1) [OF c] by simp
  have dist: "distinct (map fst (checks ?E))"
    unfolding xs using gray_of_nat_inj [OF c32] by (simp add: distinct_map)
  have cover: "set (map fst (checks ?E)) = {x. take_bit ?c x = x}"
    unfolding xs by (rule gray_covers [OF c32])
  have first: "fst (checks ?E ! 0) = 0"
    using checks_nth [OF c, of 0] by (simp add: gray_def)
  have flips: "length (masks ?E) = 2 ^ ?c - 1"
    unfolding bip_enumerate_run(2) [OF c] by simp
  have step: "fst (checks ?E ! Suc i) = fst (checks ?E ! i) XOR masks ?E ! i
      \<and> hamming (fst (checks ?E ! i)) (fst (checks ?E ! Suc i)) = 1"
    if i: "Suc i < 2 ^ ?c" for i
  proof -
    from i have i': "i < 2 ^ ?c" by simp
    obtain t where t: "t < ?c" "lowbit (of_nat (Suc i)) = 2 ^ t"
        "gray (of_nat (Suc i)) = gray (of_nat i) XOR 2 ^ t"
      using gray_succ [OF c32 i] by blast
    from t(1) c32 have "t < 32" by simp
    then have "hamming (gray (of_nat i)) (gray (of_nat i) XOR 2 ^ t) = 1" by (rule hamming_flip)
    then show ?thesis
      unfolding checks_nth [OF c i] checks_nth [OF c i'] masks_nth [OF c i]
      by (simp only: fst_conv t(2,3))
  qed
  from len dist cover first flips step show ?thesis by blast
qed

theorem C1_enumerate_visits_all_witness:
  "length (checks (bip_enumerate example_pre)) = 8
    \<and> distinct (map fst (checks (bip_enumerate example_pre)))
    \<and> set (map fst (checks (bip_enumerate example_pre))) = {x. take_bit 3 x = x}
    \<and> fst (checks (bip_enumerate example_pre) ! 0) = 0
    \<and> length (masks (bip_enumerate example_pre)) = 7
    \<and> fst (checks (bip_enumerate example_pre) ! 3)
         = fst (checks (bip_enumerate example_pre) ! 2) XOR masks (bip_enumerate example_pre) ! 2
    \<and> hamming (fst (checks (bip_enumerate example_pre) ! 2))
         (fst (checks (bip_enumerate example_pre) ! 3)) = 1"
proof -
  have c: "1 \<le> cols example_pre" "cols example_pre \<le> 32" "nat (cols example_pre) = 3"
    by (simp_all add: example_pre_def bip_init_def)
  note t = C1_enumerate_visits_all [OF c(1,2), unfolded c(3)]
  let ?E = "bip_enumerate example_pre"
  from t have a: "length (checks ?E) = 8" by simp
  from t have b: "distinct (map fst (checks ?E))" by blast
  from t have d: "set (map fst (checks ?E)) = {x. take_bit 3 x = x}" by blast
  from t have e: "fst (checks ?E ! 0) = 0" by blast
  from t have f: "length (masks ?E) = 7" by simp
  have s: "Suc 2 < (2::nat) ^ 3" and e3: "Suc 2 = 3" by simp_all
  from t s have "fst (checks ?E ! Suc 2) = fst (checks ?E ! 2) XOR masks ?E ! 2
      \<and> hamming (fst (checks ?E ! 2)) (fst (checks ?E ! Suc 2)) = 1"
    by blast
  note gh = this [unfolded e3]
  from gh have g: "fst (checks ?E ! 3) = fst (checks ?E ! 2) XOR masks ?E ! 2" by blast
  from gh have h: "hamming (fst (checks ?E ! 2)) (fst (checks ?E ! 3)) = 1" by blast
  from a b d e f g h show ?thesis by (intro conjI)
qed

text \<open>
  C10. For a model with \<open>1 \<le> cols \<le> 32\<close> the assignments are checked in the order of the
  binary-reflected Gray code: the first is 0, and after the \<open>n\<close>-th flip, for
  \<open>1 \<le> n \<le> 2^cols - 1\<close>, the assignment is \<open>n XOR (n >> 1)\<close>; the mask of the \<open>n\<close>-th flip
  is \<open>n & -n\<close>, which has one bit set, the lowest set bit of \<open>n\<close>.
\<close>

theorem C10_gray_code_order:
  assumes c: "1 \<le> cols bip" "cols bip \<le> 32"
  shows "fst (checks (bip_enumerate bip) ! 0) = 0
    \<and> (\<forall>n. 1 \<le> n \<and> n \<le> 2 ^ nat (cols bip) - 1 \<longrightarrow>
          fst (checks (bip_enumerate bip) ! n) = of_nat n XOR drop_bit 1 (of_nat n)
          \<and> masks (bip_enumerate bip) ! (n - 1) = of_nat n AND - of_nat n
          \<and> (\<exists>t<nat (cols bip). masks (bip_enumerate bip) ! (n - 1) = push_bit t 1
                \<and> bit (of_nat n :: u32) t \<and> (\<forall>l<t. \<not> bit (of_nat n :: u32) l)))"
proof -
  let ?c = "nat (cols bip)"
  let ?E = "bip_enumerate bip"
  have c32: "?c \<le> 32" using c(2) by simp
  have first: "fst (checks ?E ! 0) = 0"
    using checks_nth [OF c, of 0] by (simp add: gray_def)
  have step: "fst (checks ?E ! n) = of_nat n XOR drop_bit 1 (of_nat n)
          \<and> masks ?E ! (n - 1) = of_nat n AND - of_nat n
          \<and> (\<exists>t<?c. masks ?E ! (n - 1) = push_bit t 1
                \<and> bit (of_nat n :: u32) t \<and> (\<forall>l<t. \<not> bit (of_nat n :: u32) l))"
    if n: "1 \<le> n" "n \<le> 2 ^ ?c - 1" for n
  proof -
    obtain i where i: "n = Suc i" using n(1) by (cases n) simp_all
    have lt: "Suc i < 2 ^ ?c" using n(2) unfolding i by simp
    obtain t where t: "t < ?c" "lowbit (of_nat (Suc i)) = 2 ^ t"
        "bit (of_nat (Suc i) :: u32) t" "\<forall>l<t. \<not> bit (of_nat (Suc i) :: u32) l"
      using gray_succ [OF c32 lt] by blast
    have m: "masks ?E ! (Suc i - 1) = lowbit (of_nat (Suc i))"
      using masks_nth [OF c lt] by simp
    have "fst (checks ?E ! Suc i) = of_nat (Suc i) XOR drop_bit 1 (of_nat (Suc i))"
      unfolding checks_nth [OF c lt] by (simp only: fst_conv gray_def)
    moreover have "masks ?E ! (Suc i - 1) = of_nat (Suc i) AND - of_nat (Suc i)"
      unfolding m by (simp only: lowbit_def)
    moreover have "\<exists>t<?c. masks ?E ! (Suc i - 1) = push_bit t 1
        \<and> bit (of_nat (Suc i) :: u32) t \<and> (\<forall>l<t. \<not> bit (of_nat (Suc i) :: u32) l)"
      unfolding m using t by (intro exI [of _ t]) simp
    ultimately show ?thesis unfolding i by (intro conjI)
  qed
  from first step show ?thesis by blast
qed

theorem C10_gray_code_order_witness:
  "fst (checks (bip_enumerate example_pre) ! 0) = 0
    \<and> fst (checks (bip_enumerate example_pre) ! 6) = 6 XOR drop_bit 1 6
    \<and> masks (bip_enumerate example_pre) ! 5 = 6 AND - 6
    \<and> (\<exists>t. t < 3 \<and> masks (bip_enumerate example_pre) ! 5 = push_bit t 1
          \<and> bit (6 :: u32) t \<and> (\<forall>l<t. \<not> bit (6 :: u32) l))"
proof -
  have c: "1 \<le> cols example_pre" "cols example_pre \<le> 32" "nat (cols example_pre) = 3"
    by (simp_all add: example_pre_def bip_init_def)
  note t = C10_gray_code_order [OF c(1,2), unfolded c(3)]
  let ?E = "bip_enumerate example_pre"
  have s: "1 \<le> (6::nat) \<and> 6 \<le> (2::nat) ^ 3 - 1" by simp
  from t have a: "fst (checks ?E ! 0) = 0" by blast
  from t s have b: "fst (checks ?E ! 6) = of_nat 6 XOR drop_bit 1 (of_nat 6)
          \<and> masks ?E ! (6 - 1) = of_nat 6 AND - of_nat 6
          \<and> (\<exists>t<3. masks ?E ! (6 - 1) = push_bit t 1
                \<and> bit (of_nat 6 :: u32) t \<and> (\<forall>l<t. \<not> bit (of_nat 6 :: u32) l))"
    by blast
  have e: "(6::nat) - 1 = 5" "(of_nat 6 :: u32) = 6" by simp_all
  note b' = b [unfolded e]
  from a b' show ?thesis by blast
qed



text \<open>
  C8. On a model with \<open>cols = 0\<close>, \<^verbatim>\<open>bip_enumerate\<close> returns the count 0 at once: it checks
  no assignment, makes no flip and never calls \<^verbatim>\<open>check_feasibility\<close> or \<^verbatim>\<open>report_sol\<close>.
\<close>

theorem C8_no_columns:
  "cols bip = 0 \<Longrightarrow>
     sol_count (bip_enumerate bip) = 0 \<and> checks (bip_enumerate bip) = []
     \<and> masks (bip_enumerate bip) = [] \<and> reports (bip_enumerate bip) = []"
  by (simp add: bip_enumerate_def)

theorem C8_no_columns_witness:
  "sol_count (bip_enumerate (bip_init 1)) = 0 \<and> checks (bip_enumerate (bip_init 1)) = []
     \<and> masks (bip_enumerate (bip_init 1)) = [] \<and> reports (bip_enumerate (bip_init 1)) = []"
proof -
  have "cols (bip_init 1) = 0" by (simp add: bip_init_def)
  then show ?thesis by (rule C8_no_columns)
qed

section \<open>The feasibility check, verified\<close>

declare eq_scan.simps [simp del] le_scan.simps [simp del]

lemma eq_scan_props:
  "k \<le> equs bip \<Longrightarrow>
     k \<le> fst (eq_scan bip r k seen) \<and> fst (eq_scan bip r k seen) \<le> equs bip
     \<and> (\<forall>j. k \<le> j \<and> j < fst (eq_scan bip r k seen) \<longrightarrow> r ! nat j = 0)
     \<and> (fst (eq_scan bip r k seen) < equs bip \<longrightarrow> r ! nat (fst (eq_scan bip r k seen)) \<noteq> 0)
     \<and> snd (eq_scan bip r k seen)
         = seen @ [k..min (fst (eq_scan bip r k seen)) (equs bip - 1)]"
proof (induction bip r k seen rule: eq_scan.induct)
  case (1 bip r k seen)
  show ?case
  proof (cases "k < equs bip \<and> r ! nat k = 0")
    case True
    then have e: "eq_scan bip r k seen = eq_scan bip r (k + 1) (seen @ [k])"
      by (simp add: eq_scan.simps [of bip r k seen])
    from True have t: "k < equs bip" "r ! nat k = 0" "k + 1 \<le> equs bip" by simp_all
    note "1.IH" [OF t]
    then have ih:
      "k + 1 \<le> fst (eq_scan bip r (k + 1) (seen @ [k]))"
      "fst (eq_scan bip r (k + 1) (seen @ [k])) \<le> equs bip"
      "\<forall>j. k + 1 \<le> j \<and> j < fst (eq_scan bip r (k + 1) (seen @ [k])) \<longrightarrow> r ! nat j = 0"
      "fst (eq_scan bip r (k + 1) (seen @ [k])) < equs bip
         \<longrightarrow> r ! nat (fst (eq_scan bip r (k + 1) (seen @ [k]))) \<noteq> 0"
      "snd (eq_scan bip r (k + 1) (seen @ [k]))
         = (seen @ [k]) @ [k + 1..min (fst (eq_scan bip r (k + 1) (seen @ [k]))) (equs bip - 1)]"
      by blast+
    have z: "\<forall>j. k \<le> j \<and> j < fst (eq_scan bip r (k + 1) (seen @ [k])) \<longrightarrow> r ! nat j = 0"
    proof (intro allI impI)
      fix j assume j: "k \<le> j \<and> j < fst (eq_scan bip r (k + 1) (seen @ [k]))"
      show "r ! nat j = 0"
      proof (cases "j = k")
        case True
        with \<open>k < equs bip \<and> r ! nat k = 0\<close> show ?thesis by simp
      next
        case False
        with j ih(3) show ?thesis by simp
      qed
    qed
    have u: "[k..min (fst (eq_scan bip r (k + 1) (seen @ [k]))) (equs bip - 1)]
        = k # [k + 1..min (fst (eq_scan bip r (k + 1) (seen @ [k]))) (equs bip - 1)]"
      using ih(1) True by (intro upto_rec1) simp
    show ?thesis unfolding e using ih(1,2,4) z by (simp add: ih(5) u)
  next
    case False
    show ?thesis
    proof (cases "k < equs bip")
      case True
      with False have e: "eq_scan bip r k seen = (k, seen @ [k])"
        by (simp add: eq_scan.simps [of bip r k seen])
      from True False show ?thesis unfolding e by simp
    next
      case False
      with "1.prems" have k: "k = equs bip" by simp
      from False have e: "eq_scan bip r k seen = (k, seen)"
        by (simp add: eq_scan.simps [of bip r k seen])
      show ?thesis unfolding e using k by simp
    qed
  qed
qed

lemma le_scan_props:
  "k \<le> rows bip \<Longrightarrow>
     k \<le> fst (le_scan bip r k seen) \<and> fst (le_scan bip r k seen) \<le> rows bip
     \<and> (\<forall>j. k \<le> j \<and> j < fst (le_scan bip r k seen) \<longrightarrow> r ! nat j \<le> 0)
     \<and> (fst (le_scan bip r k seen) < rows bip \<longrightarrow> \<not> r ! nat (fst (le_scan bip r k seen)) \<le> 0)
     \<and> snd (le_scan bip r k seen)
         = seen @ [k..min (fst (le_scan bip r k seen)) (rows bip - 1)]"
proof (induction bip r k seen rule: le_scan.induct)
  case (1 bip r k seen)
  show ?case
  proof (cases "k < rows bip \<and> r ! nat k \<le> 0")
    case True
    then have e: "le_scan bip r k seen = le_scan bip r (k + 1) (seen @ [k])"
      by (simp add: le_scan.simps [of bip r k seen])
    from True have t: "k < rows bip" "r ! nat k \<le> 0" "k + 1 \<le> rows bip" by simp_all
    note "1.IH" [OF t]
    then have ih:
      "k + 1 \<le> fst (le_scan bip r (k + 1) (seen @ [k]))"
      "fst (le_scan bip r (k + 1) (seen @ [k])) \<le> rows bip"
      "\<forall>j. k + 1 \<le> j \<and> j < fst (le_scan bip r (k + 1) (seen @ [k])) \<longrightarrow> r ! nat j \<le> 0"
      "fst (le_scan bip r (k + 1) (seen @ [k])) < rows bip
         \<longrightarrow> \<not> r ! nat (fst (le_scan bip r (k + 1) (seen @ [k]))) \<le> 0"
      "snd (le_scan bip r (k + 1) (seen @ [k]))
         = (seen @ [k]) @ [k + 1..min (fst (le_scan bip r (k + 1) (seen @ [k]))) (rows bip - 1)]"
      by blast+
    have z: "\<forall>j. k \<le> j \<and> j < fst (le_scan bip r (k + 1) (seen @ [k])) \<longrightarrow> r ! nat j \<le> 0"
    proof (intro allI impI)
      fix j assume j: "k \<le> j \<and> j < fst (le_scan bip r (k + 1) (seen @ [k]))"
      show "r ! nat j \<le> 0"
      proof (cases "j = k")
        case True
        with t(2) show ?thesis by simp
      next
        case False
        with j ih(3) show ?thesis by simp
      qed
    qed
    have u: "[k..min (fst (le_scan bip r (k + 1) (seen @ [k]))) (rows bip - 1)]
        = k # [k + 1..min (fst (le_scan bip r (k + 1) (seen @ [k]))) (rows bip - 1)]"
      using ih(1) True by (intro upto_rec1) simp
    show ?thesis unfolding e using ih(1,2,4) z by (simp add: ih(5) u)
  next
    case False
    show ?thesis
    proof (cases "k < rows bip")
      case True
      with False have e: "le_scan bip r k seen = (k, seen @ [k])"
        by (simp add: le_scan.simps [of bip r k seen])
      from True False show ?thesis unfolding e by simp
    next
      case False
      with "1.prems" have k: "k = rows bip" by simp
      from False have e: "le_scan bip r k seen = (k, seen)"
        by (simp add: le_scan.simps [of bip r k seen])
      show ?thesis unfolding e using k by simp
    qed
  qed
qed

lemma check_feasibility_eq_fail:
  assumes e: "eq_scan bip r 0 [] = (k1, s1)" and k: "k1 \<noteq> equs bip"
  shows "check_feasibility bip x r reported =
     (if k1 < rows bip
      then \<lparr>cf_ret = 0, cf_bip = bip, cf_r = r, cf_read = s1, cf_reports = reported\<rparr>
      else \<lparr>cf_ret = 1, cf_bip = bip, cf_r = r, cf_read = s1, cf_reports = reported @ [x]\<rparr>)"
  using k by (simp add: check_feasibility_def e)

lemma check_feasibility_eq_pass:
  assumes e: "eq_scan bip r 0 [] = (equs bip, s1)" and l: "le_scan bip r (equs bip) s1 = (k2, s2)"
  shows "check_feasibility bip x r reported =
     (if k2 < rows bip
      then \<lparr>cf_ret = 0, cf_bip = bip, cf_r = r, cf_read = s2, cf_reports = reported\<rparr>
      else \<lparr>cf_ret = 1, cf_bip = bip, cf_r = r, cf_read = s2, cf_reports = reported @ [x]\<rparr>)"
  by (simp add: check_feasibility_def e l)

text \<open>
  C7. For a residual array \<open>r\<close> with one entry per row, on a model with
  \<open>0 \<le> equs \<le> rows\<close>, \<^verbatim>\<open>check_feasibility\<close> returns 1 exactly when \<open>r[k] = 0\<close> for every
  \<open>k < equs\<close> and \<open>r[k] \<le> 0\<close> for every \<open>k\<close> from \<open>equs\<close> to \<open>rows - 1\<close>, and 0 otherwise. When
  \<open>k\<close> is the first equality row with a nonzero residual, it returns 0 having read the
  residuals 0 to \<open>k\<close> and no other. It reads inside the array only, leaves the model and
  the array as they were, and calls \<^verbatim>\<open>report_sol\<close> with \<open>x\<close> exactly when it returns 1.
\<close>

theorem C7_check_feasibility:
  assumes q: "0 \<le> equs bip" "equs bip \<le> rows bip" and len: "length r = nat (rows bip)"
  shows "(cf_ret (check_feasibility bip x r reported) = 1 \<longleftrightarrow>
            (\<forall>k. 0 \<le> k \<and> k < equs bip \<longrightarrow> r ! nat k = 0)
            \<and> (\<forall>k. equs bip \<le> k \<and> k < rows bip \<longrightarrow> r ! nat k \<le> 0))
    \<and> (cf_ret (check_feasibility bip x r reported) \<noteq> 1 \<longleftrightarrow>
          cf_ret (check_feasibility bip x r reported) = 0)
    \<and> (\<forall>k. 0 \<le> k \<and> k < equs bip \<and> r ! nat k \<noteq> 0 \<and> (\<forall>j. 0 \<le> j \<and> j < k \<longrightarrow> r ! nat j = 0)
          \<longrightarrow> cf_ret (check_feasibility bip x r reported) = 0
              \<and> cf_read (check_feasibility bip x r reported) = [0..k])
    \<and> (\<forall>j. j \<in> set (cf_read (check_feasibility bip x r reported)) \<longrightarrow> 0 \<le> j \<and> nat j < length r)
    \<and> cf_bip (check_feasibility bip x r reported) = bip
    \<and> cf_r (check_feasibility bip x r reported) = r
    \<and> cf_reports (check_feasibility bip x r reported)
        = (if cf_ret (check_feasibility bip x r reported) = 1 then reported @ [x] else reported)"
proof -
  obtain k1 s1 where e: "eq_scan bip r 0 [] = (k1, s1)" by (cases "eq_scan bip r 0 []")
  note p = eq_scan_props [OF q(1), of r "[]", unfolded e fst_conv snd_conv]
  from p have p1: "0 \<le> k1" "k1 \<le> equs bip" "\<forall>j. 0 \<le> j \<and> j < k1 \<longrightarrow> r ! nat j = 0"
    "k1 < equs bip \<longrightarrow> r ! nat k1 \<noteq> 0" "s1 = [] @ [0..min k1 (equs bip - 1)]"
    by blast+
  show ?thesis
  proof (cases "k1 = equs bip")
    case False
    with p1 have lt: "k1 < equs bip" "r ! nat k1 \<noteq> 0" by simp_all
    then have s1: "s1 = [0..k1]" using p1(5) by (simp add: min_def)
    have cf: "check_feasibility bip x r reported =
        \<lparr>cf_ret = 0, cf_bip = bip, cf_r = r, cf_read = [0..k1], cf_reports = reported\<rparr>"
      using check_feasibility_eq_fail [OF e False] lt(1) q(2) by (simp add: s1)
    have first: "k = k1"
      if "0 \<le> k \<and> k < equs bip \<and> r ! nat k \<noteq> 0 \<and> (\<forall>j. 0 \<le> j \<and> j < k \<longrightarrow> r ! nat j = 0)" for k
    proof (rule antisym)
      show "k \<le> k1" using that p1(1) lt(2) by (metis not_le)
      show "k1 \<le> k" using that p1(3) by (metis not_le)
    qed
    have inb: "0 \<le> j \<and> nat j < length r" if "j \<in> set [0..k1]" for j
      using that lt(1) q len by auto
    have neq: "\<not> (\<forall>k. 0 \<le> k \<and> k < equs bip \<longrightarrow> r ! nat k = 0)" using lt p1(1) by blast
    show ?thesis
      unfolding cf
    proof (intro conjI)
      show "\<forall>k. 0 \<le> k \<and> k < equs bip \<and> r ! nat k \<noteq> 0 \<and> (\<forall>j. 0 \<le> j \<and> j < k \<longrightarrow> r ! nat j = 0)
          \<longrightarrow> cf_ret \<lparr>cf_ret = 0, cf_bip = bip, cf_r = r, cf_read = [0..k1], cf_reports = reported\<rparr> = 0
              \<and> cf_read \<lparr>cf_ret = 0, cf_bip = bip, cf_r = r, cf_read = [0..k1], cf_reports = reported\<rparr> = [0..k]"
        using first by simp
      show "\<forall>j. j \<in> set (cf_read \<lparr>cf_ret = 0, cf_bip = bip, cf_r = r, cf_read = [0..k1], cf_reports = reported\<rparr>)
          \<longrightarrow> 0 \<le> j \<and> nat j < length r"
        using inb by simp
    qed (simp_all add: neq)
  next
    case True
    obtain k2 s2 where l: "le_scan bip r (equs bip) s1 = (k2, s2)"
      by (cases "le_scan bip r (equs bip) s1")
    note p' = le_scan_props [OF q(2), of r s1, unfolded l fst_conv snd_conv]
    from p' have p2: "equs bip \<le> k2" "k2 \<le> rows bip"
      "\<forall>j. equs bip \<le> j \<and> j < k2 \<longrightarrow> r ! nat j \<le> 0"
      "k2 < rows bip \<longrightarrow> \<not> r ! nat k2 \<le> 0" "s2 = s1 @ [equs bip..min k2 (rows bip - 1)]"
      by blast+
    have cf: "check_feasibility bip x r reported =
     (if k2 < rows bip
      then \<lparr>cf_ret = 0, cf_bip = bip, cf_r = r, cf_read = s2, cf_reports = reported\<rparr>
      else \<lparr>cf_ret = 1, cf_bip = bip, cf_r = r, cf_read = s2, cf_reports = reported @ [x]\<rparr>)"
      using e l unfolding True by (rule check_feasibility_eq_pass)
    have eqs: "\<forall>k. 0 \<le> k \<and> k < equs bip \<longrightarrow> r ! nat k = 0" using p1(3) True by simp
    have les: "(\<forall>k. equs bip \<le> k \<and> k < rows bip \<longrightarrow> r ! nat k \<le> 0) \<longleftrightarrow> \<not> k2 < rows bip"
      using p2(1-4) by (metis not_le order.order_iff_strict)
    have inb: "0 \<le> j \<and> nat j < length r" if "j \<in> set s2" for j
      using that q len p2(1,2) p1(1,5) True unfolding p2(5) by auto
    have none: "\<not> (0 \<le> k \<and> k < equs bip \<and> r ! nat k \<noteq> 0 \<and> (\<forall>j. 0 \<le> j \<and> j < k \<longrightarrow> r ! nat j = 0))"
      for k using eqs by blast
    show ?thesis
    proof (cases "k2 < rows bip")
      case True
      then have cf0: "check_feasibility bip x r reported =
          \<lparr>cf_ret = 0, cf_bip = bip, cf_r = r, cf_read = s2, cf_reports = reported\<rparr>"
        using cf by simp
      from True les have nl: "\<not> (\<forall>k. equs bip \<le> k \<and> k < rows bip \<longrightarrow> r ! nat k \<le> 0)" by simp
      show ?thesis
        unfolding cf0
      proof (intro conjI)
        show "\<forall>j. j \<in> set (cf_read \<lparr>cf_ret = 0, cf_bip = bip, cf_r = r, cf_read = s2, cf_reports = reported\<rparr>)
            \<longrightarrow> 0 \<le> j \<and> nat j < length r"
          using inb by simp
      qed (simp_all add: nl none)
    next
      case False
      then have cf1: "check_feasibility bip x r reported =
          \<lparr>cf_ret = 1, cf_bip = bip, cf_r = r, cf_read = s2, cf_reports = reported @ [x]\<rparr>"
        using cf by simp
      from False les have al: "\<forall>k. equs bip \<le> k \<and> k < rows bip \<longrightarrow> r ! nat k \<le> 0" by simp
      show ?thesis
        unfolding cf1
      proof (intro conjI)
        show "\<forall>j. j \<in> set (cf_read \<lparr>cf_ret = 1, cf_bip = bip, cf_r = r, cf_read = s2, cf_reports = reported @ [x]\<rparr>)
            \<longrightarrow> 0 \<le> j \<and> nat j < length r"
          using inb by simp
        show "(cf_ret \<lparr>cf_ret = 1, cf_bip = bip, cf_r = r, cf_read = s2, cf_reports = reported @ [x]\<rparr> = 1) =
          ((\<forall>k. 0 \<le> k \<and> k < equs bip \<longrightarrow> r ! nat k = 0) \<and>
           (\<forall>k. equs bip \<le> k \<and> k < rows bip \<longrightarrow> r ! nat k \<le> 0))"
          using eqs al by simp
      qed (simp_all add: none)
    qed
  qed
qed

theorem C7_check_feasibility_witness:
  "cf_ret (check_feasibility example_cf 0 [0, 5, 7] []) = 0
    \<and> cf_read (check_feasibility example_cf 0 [0, 5, 7] []) = [0, 1]
    \<and> cf_bip (check_feasibility example_cf 0 [0, 5, 7] []) = example_cf
    \<and> cf_r (check_feasibility example_cf 0 [0, 5, 7] []) = [0, 5, 7]
    \<and> cf_reports (check_feasibility example_cf 0 [0, 5, 7] []) = []"
proof -
  let ?cf = "check_feasibility example_cf 0 [0, 5, 7] []"
  have h: "0 \<le> equs example_cf" "equs example_cf \<le> rows example_cf"
    "length [0, 5, 7 :: real] = nat (rows example_cf)"
    by (simp_all add: example_cf_def bip_init_def)
  note t = C7_check_feasibility [OF h, of 0 "[]"]
  have k: "0 \<le> (1::int) \<and> 1 < equs example_cf \<and> [0, 5, 7 :: real] ! nat 1 \<noteq> 0
      \<and> (\<forall>j. 0 \<le> j \<and> j < (1::int) \<longrightarrow> [0, 5, 7 :: real] ! nat j = 0)"
    by (auto simp add: example_cf_def bip_init_def)
  from t k have a: "cf_ret ?cf = 0 \<and> cf_read ?cf = [0..1]" by blast
  from t have b: "cf_bip ?cf = example_cf" "cf_r ?cf = [0, 5, 7]" by blast+
  from t have "cf_reports ?cf = (if cf_ret ?cf = 1 then [] @ [0] else [])" by blast
  with a have c: "cf_reports ?cf = []" by simp
  have u: "[0..1] = [0, 1 :: int]" by (simp add: upto_rec1)
  from a b c show ?thesis unfolding u by (intro conjI) simp_all
qed

section \<open>The overflow guard, verified\<close>












section \<open>Preprocessing, verified\<close>

lemma copy_cols_gen:
  "let b' = fold (\<lambda>c b. b\<lparr>ac := (ac b)(c := (ac b c)(k := f (ar b r c)))\<rparr>) [0..<n] b
   in ac b' = (\<lambda>c k'. if k' = k \<and> c < n then f (ar b r c) else ac b c k')
      \<and> ar b' = ar b \<and> rhs b' = rhs b \<and> sense b' = sense b \<and> rows b' = rows b
      \<and> cols b' = cols b \<and> equs b' = equs b \<and> rhs_ord b' = rhs_ord b
      \<and> min_coef_val b' = min_coef_val b \<and> max_coef_val b' = max_coef_val b"
proof (induction n)
  case 0
  then show ?case by (simp add: Let_def)
next
  case (Suc n)
  then show ?case
    by (simp add: Let_def fun_eq_iff less_Suc_eq)
qed

lemma copy_row_fields:
  "ac (copy_row r k b) = (\<lambda>c k'. if k' = k \<and> c < nat (cols b) then ar b r c else ac b c k')"
  "ar (copy_row r k b) = ar b" "rhs (copy_row r k b) = rhs b" "sense (copy_row r k b) = sense b"
  "rows (copy_row r k b) = rows b" "cols (copy_row r k b) = cols b"
  "equs (copy_row r k b) = equs b" "rhs_ord (copy_row r k b) = rhs_ord b"
  using copy_cols_gen [where n = "nat (cols b)" and k = k and f = "\<lambda>a. a" and r = r and b = b]
  by (simp_all add: copy_row_def Let_def)

lemma copy_row_neg_fields:
  "ac (copy_row_neg r k b) = (\<lambda>c k'. if k' = k \<and> c < nat (cols b) then - ar b r c else ac b c k')"
  "ar (copy_row_neg r k b) = ar b" "rhs (copy_row_neg r k b) = rhs b"
  "sense (copy_row_neg r k b) = sense b"
  "rows (copy_row_neg r k b) = rows b" "cols (copy_row_neg r k b) = cols b"
  "equs (copy_row_neg r k b) = equs b" "rhs_ord (copy_row_neg r k b) = rhs_ord b"
  using copy_cols_gen [where n = "nat (cols b)" and k = k and f = "\<lambda>a. - a" and r = r and b = b]
  by (simp_all add: copy_row_neg_def Let_def)

lemma eq_pass_step_inv:
  assumes "eq_pass_inv b0 m s"
  shows "eq_pass_inv b0 (Suc m) (eq_pass_step m s)"
proof -
  obtain b cnt where s: "s = (b, cnt)" by (cases s)
  show ?thesis
  proof (cases "sense b0 m = EQ")
    case True
    with assms show ?thesis
      unfolding s
      by (auto simp add: eq_pass_inv_def eq_pass_step_def Let_def copy_row_fields nth_append)
  next
    case False
    with assms show ?thesis
      unfolding s by (simp add: eq_pass_inv_def eq_pass_step_def)
  qed
qed

lemma eq_pass_fold:
  "eq_pass_inv b0 0 s \<Longrightarrow> eq_pass_inv b0 m (fold eq_pass_step [0..<m] s)"
  by (induction m) (simp_all add: eq_pass_step_inv)

lemma rest_pass_step_inv:
  assumes "rest_pass_inv b1 n1 m s"
  shows "rest_pass_inv b1 n1 (Suc m) (rest_pass_step m s)"
proof -
  obtain b cnt where s: "s = (b, cnt)" by (cases s)
  show ?thesis
  proof (cases "sense b1 m")
    case LE
    with assms show ?thesis
      unfolding s
      by (auto simp add: rest_pass_inv_def rest_pass_step_def copy_row_fields nth_append
          oriented_def)
  next
    case GE
    with assms show ?thesis
      unfolding s
      by (auto simp add: rest_pass_inv_def rest_pass_step_def copy_row_neg_fields nth_append
          oriented_def)
  next
    case EQ
    with assms show ?thesis
      unfolding s by (simp add: rest_pass_inv_def rest_pass_step_def)
  qed
qed

lemma rest_pass_fold:
  "rest_pass_inv b1 n1 0 s \<Longrightarrow> rest_pass_inv b1 n1 m (fold rest_pass_step [0..<m] s)"
  by (induction m) (simp_all add: rest_pass_step_inv)

lemma length_row_order: "length (row_order bip) = nat (rows bip)"
  unfolding row_order_def eq_rows_def ineq_rows_def
  using sum_length_filter_compl [of "\<lambda>r. sense bip r = EQ" "[0..<nat (rows bip)]"] by simp

lemma reorder_result:
  "equs (reorder bip) = int (length (eq_rows bip))
   \<and> ar (reorder bip) = ar bip \<and> rhs (reorder bip) = rhs bip \<and> sense (reorder bip) = sense bip
   \<and> rows (reorder bip) = rows bip \<and> cols (reorder bip) = cols bip
   \<and> (\<forall>k<nat (rows bip).
         rhs_ord (reorder bip) k
           = oriented (sense bip (row_order bip ! k)) (rhs bip (row_order bip ! k))
         \<and> (\<forall>c<nat (cols bip). ac (reorder bip) c k
               = oriented (sense bip (row_order bip ! k)) (ar bip (row_order bip ! k) c)))"
proof -
  let ?b0 = "bip\<lparr>equs := 0\<rparr>"
  let ?n = "nat (rows bip)"
  obtain b1 cnt1 where f1: "fold eq_pass_step [0..<?n] (?b0, 0) = (b1, cnt1)"
    by (cases "fold eq_pass_step [0..<?n] (?b0, 0)")
  have "eq_pass_inv ?b0 0 (?b0, 0)" by (simp add: eq_pass_inv_def)
  then have "eq_pass_inv ?b0 ?n (fold eq_pass_step [0..<?n] (?b0, 0))" by (rule eq_pass_fold)
  then have i1: "eq_pass_inv ?b0 ?n (b1, cnt1)" by (simp only: f1)
  then have r1: "rows b1 = rows bip" "sense b1 = sense bip" "cols b1 = cols bip"
    "ar b1 = ar bip" "rhs b1 = rhs bip" "cnt1 = length (eq_rows bip)" "equs b1 = int cnt1"
    by (simp_all add: eq_pass_inv_def eq_rows_def)
  obtain b2 cnt2 where f2: "fold rest_pass_step [0..<?n] (b1, cnt1) = (b2, cnt2)"
    by (cases "fold rest_pass_step [0..<?n] (b1, cnt1)")
  have "rest_pass_inv b1 cnt1 0 (b1, cnt1)" by (simp add: rest_pass_inv_def)
  then have "rest_pass_inv b1 cnt1 ?n (fold rest_pass_step [0..<?n] (b1, cnt1))"
    by (rule rest_pass_fold)
  then have i2: "rest_pass_inv b1 cnt1 ?n (b2, cnt2)" by (simp only: f2)
  have re: "reorder bip = b2"
    by (simp add: reorder_def Let_def f1 r1(1) f2)
  from i2 have fields: "equs b2 = int (length (eq_rows bip))" "ar b2 = ar bip" "rhs b2 = rhs bip"
    "sense b2 = sense bip" "rows b2 = rows bip" "cols b2 = cols bip"
    by (simp_all add: rest_pass_inv_def r1)
  have row: "rhs_ord b2 k = oriented (sense bip (row_order bip ! k)) (rhs bip (row_order bip ! k))
         \<and> (\<forall>c<nat (cols bip). ac b2 c k
               = oriented (sense bip (row_order bip ! k)) (ar bip (row_order bip ! k) c))"
    if k: "k < ?n" for k
  proof (cases "k < cnt1")
    case True
    then have o: "row_order bip ! k = eq_rows bip ! k"
      by (simp add: row_order_def nth_append r1(6))
    from True have "eq_rows bip ! k \<in> set (eq_rows bip)" by (simp add: r1(6))
    then have e: "sense bip (eq_rows bip ! k) = EQ" by (simp add: eq_rows_def)
    from i2 True have "rhs_ord b2 k = rhs_ord b1 k \<and> (\<forall>c. ac b2 c k = ac b1 c k)"
      by (simp add: rest_pass_inv_def)
    moreover from i1 True have "rhs_ord b1 k = rhs bip (eq_rows bip ! k)
        \<and> (\<forall>c<nat (cols bip). ac b1 c k = ar bip (eq_rows bip ! k) c)"
      by (simp add: eq_pass_inv_def eq_rows_def)
    ultimately show ?thesis unfolding o by (simp add: e oriented_def)
  next
    case False
    define j where "j = k - cnt1"
    have kj: "k = cnt1 + j" using False by (simp add: j_def)
    have "length (row_order bip) = ?n" by (rule length_row_order)
    then have jl: "j < length (ineq_rows bip)"
      using k kj by (simp add: row_order_def r1(6))
    have o: "row_order bip ! k = ineq_rows bip ! j"
      unfolding kj by (simp add: row_order_def nth_append r1(6))
    from i2 jl show ?thesis
      unfolding o unfolding kj
      by (simp add: rest_pass_inv_def ineq_rows_def r1)
  qed
  from fields row show ?thesis unfolding re by blast
qed

lemma scale_cols_gen:
  "let b' = fold (\<lambda>c b. b\<lparr>ac := (ac b)(c := (ac b c)(r := ac b c r * s))\<rparr>) [0..<n] b
   in ac b' = (\<lambda>c k. if k = r \<and> c < n then ac b c r * s else ac b c k)
      \<and> ar b' = ar b \<and> rhs b' = rhs b \<and> sense b' = sense b \<and> rows b' = rows b
      \<and> cols b' = cols b \<and> equs b' = equs b \<and> rhs_ord b' = rhs_ord b"
proof (induction n)
  case 0
  then show ?case by (simp add: Let_def)
next
  case (Suc n)
  then show ?case
    by (simp add: Let_def fun_eq_iff less_Suc_eq)
qed

lemma scale_row_fields:
  "ac (scale_row r b) = (\<lambda>c k. if k = r \<and> c < nat (cols b) then ac b c r * row_factor b r
                                 else ac b c k)"
  "rhs_ord (scale_row r b) = (\<lambda>k. if k = r then rhs_ord b r * row_factor b r else rhs_ord b k)"
  "ar (scale_row r b) = ar b" "rhs (scale_row r b) = rhs b" "sense (scale_row r b) = sense b"
  "rows (scale_row r b) = rows b" "cols (scale_row r b) = cols b" "equs (scale_row r b) = equs b"
  using scale_cols_gen [where n = "nat (cols b)" and r = r and s = "10 powr row_scale b r" and b = b]
  by (simp_all add: scale_row_def Let_def row_factor_def fun_eq_iff)

lemma row_scale_cong:
  assumes "cols b' = cols b" and "\<forall>c<nat (cols b). ac b' c k = ac b c k"
  shows "row_scale b' k = row_scale b k"
  unfolding row_scale_def assms(1)
  using assms(2) by (intro fold_cong) simp_all

lemma row_factor_cong:
  assumes "cols b' = cols b" and "\<forall>c<nat (cols b). ac b' c k = ac b c k"
  shows "row_factor b' k = row_factor b k"
  unfolding row_factor_def row_scale_cong [OF assms] ..

lemma scale_pass:
  "let b' = fold scale_row [0..<m] b
   in (\<forall>k. rhs_ord b' k = (if k < m then rhs_ord b k * row_factor b k else rhs_ord b k)
          \<and> (\<forall>c. ac b' c k = (if k < m \<and> c < nat (cols b) then ac b c k * row_factor b k
                               else ac b c k)))
      \<and> ar b' = ar b \<and> rhs b' = rhs b \<and> sense b' = sense b \<and> rows b' = rows b
      \<and> cols b' = cols b \<and> equs b' = equs b"
proof (induction m)
  case 0
  then show ?case by (simp add: Let_def)
next
  case (Suc m)
  let ?b = "fold scale_row [0..<m] b"
  from Suc have ih: "\<forall>k. rhs_ord ?b k = (if k < m then rhs_ord b k * row_factor b k else rhs_ord b k)
          \<and> (\<forall>c. ac ?b c k = (if k < m \<and> c < nat (cols b) then ac b c k * row_factor b k
                               else ac b c k))"
    "ar ?b = ar b" "rhs ?b = rhs b" "sense ?b = sense b" "rows ?b = rows b"
    "cols ?b = cols b" "equs ?b = equs b"
    by (simp_all add: Let_def)
  have f: "row_factor ?b m = row_factor b m"
    using ih(1) by (intro row_factor_cong ih(6)) simp
  show ?case
    using ih by (simp add: Let_def scale_row_fields f less_Suc_eq)
qed

lemma bip_preprocess_result:
  "equs (bip_preprocess bip) = int (length (eq_rows bip))
   \<and> ar (bip_preprocess bip) = ar bip \<and> rhs (bip_preprocess bip) = rhs bip
   \<and> sense (bip_preprocess bip) = sense bip
   \<and> rows (bip_preprocess bip) = rows bip \<and> cols (bip_preprocess bip) = cols bip
   \<and> (\<forall>k<nat (rows bip).
         rhs_ord (bip_preprocess bip) k
           = oriented (sense bip (row_order bip ! k)) (rhs bip (row_order bip ! k))
               * row_factor (reorder bip) k
         \<and> (\<forall>c<nat (cols bip). ac (bip_preprocess bip) c k
               = oriented (sense bip (row_order bip ! k)) (ar bip (row_order bip ! k) c)
                   * row_factor (reorder bip) k))"
proof -
  note r = reorder_result [of bip]
  from r have f: "rows (reorder bip) = rows bip" "cols (reorder bip) = cols bip" by blast+
  note s = scale_pass [of "nat (rows bip)" "reorder bip", unfolded Let_def f]
  have p: "bip_preprocess bip = fold scale_row [0..<nat (rows bip)] (reorder bip)"
    by (simp add: bip_preprocess_def Let_def f)
  from r s show ?thesis unfolding p by simp
qed







lemma upt_1: "[0..<1] = [0]" and upt_2: "[0..<2] = [0, 1]"
  by (simp_all add: upt_rec)

lemma reorder_example_mixed:
  "rhs_ord (reorder example_mixed) 0 = - 1" "rhs_ord (reorder example_mixed) 1 = 3"
  "ac (reorder example_mixed) 0 0 = - 1" "ac (reorder example_mixed) 0 1 = 2"
  "equs (reorder example_mixed) = 0" "cols (reorder example_mixed) = 1"
  "rows (reorder example_mixed) = 2"
  by (simp_all add: reorder_def example_mixed_def bip_init_def upt_1 upt_2 eq_pass_step_def
      rest_pass_step_def copy_row_def copy_row_neg_def Let_def)





lemma ceiling_log_quarter: "\<lceil>- log 10 (1 / 4 :: real)\<rceil> = 1"
proof (rule ceiling_unique)
  have "log 10 (1 / 4 :: real) < 0" by simp
  then show "real_of_int 1 - 1 < - log 10 (1 / 4)" by simp
  have "log 10 (1 / 10 :: real) \<le> log 10 (1 / 4)" by (subst log_le_cancel_iff) simp_all
  moreover have "log 10 (1 / 10 :: real) = - 1" by (simp add: log_divide)
  ultimately show "- log 10 (1 / 4 :: real) \<le> real_of_int 1" by simp
qed

text \<open>
  C5 at the input \<^verbatim>\<open>1 / 1 / 0.25 <= 1\<close>. The fractional part of the coefficient is 0.25,
  \<open>ceil(-log10(0.25)) = 1\<close>, and the row is multiplied by 10: the coefficient becomes 2.5
  and the right-hand side 10. The fractional part 0.5 is still there; the smallest
  power of ten that removes it is 100.
\<close>

theorem C5_scaling_leaves_fraction:
  "row_scale (reorder example_quarter) 0 = 1
   \<and> ac (bip_preprocess example_quarter) 0 0 = 5 / 2
   \<and> rhs_ord (bip_preprocess example_quarter) 0 = 10
   \<and> \<bar>ac (bip_preprocess example_quarter) 0 0\<bar>
        - of_int \<lfloor>\<bar>ac (bip_preprocess example_quarter) 0 0\<bar>\<rfloor> = 1 / 2
   \<and> 100 * ar example_quarter 0 0 = 25"
proof -
  have fl: "\<lfloor>1 / 4 :: real\<rfloor> = 0" "\<lfloor>5 / 2 :: real\<rfloor> = 2" by (simp_all add: floor_eq_iff)
  have s: "scale_of_coef (1 / 4) 0 = 1"
    by (simp add: scale_of_coef_def fl ceiling_log_quarter)
  have r: "cols (reorder example_quarter) = 1" "rows (reorder example_quarter) = 1"
    "ac (reorder example_quarter) 0 0 = 1 / 4" "rhs_ord (reorder example_quarter) 0 = 1"
    by (simp_all add: reorder_def example_quarter_def bip_init_def upt_1 eq_pass_step_def
      rest_pass_step_def copy_row_def Let_def)
  have rs: "row_scale (reorder example_quarter) 0 = 1"
    by (simp add: row_scale_def r upt_1 s)
  have a: "ac (bip_preprocess example_quarter) 0 0 = 5 / 2"
    "rhs_ord (bip_preprocess example_quarter) 0 = 10"
    by (simp_all add: bip_preprocess_def Let_def r upt_1 scale_row_def rs)
  show ?thesis unfolding a rs by (simp add: fl example_quarter_def)
qed

section \<open>Reading a model, verified\<close>

lemma rint_integer: "rint (of_int z) = of_int z"
  by (simp add: rint_def)

lemma read_loop_huge_rows:
  "read_loop READ_COLS example_huge_rows (bip_init 1, False)
     = Some (READ_COEF, (bip_init 1)\<lparr>cols := 1, rows := INT_MIN\<rparr>, False)"
proof -
  have r: "rint 1 = 1" "rint 10000000000 = 10000000000"
    using rint_integer [of 1] rint_integer [of 10000000000] by simp_all
  have c: "int_of_double 1 = 1" "int_of_double 10000000000 = - 2147483648"
    by (simp_all add: int_of_double_def INT_MIN_def)
  have l1: "process_line READ_COLS [number ''1'' 1] (bip_init 1, False)
      = Some (READ_ROWS, (bip_init 1)\<lparr>cols := 1\<rparr>, False)"
    by (simp add: process_line_def number_def bad_count_def isnan_def isinf_def r c
        BIP_MAX_COLS_def)
  have l2: "process_line READ_ROWS [number ''10000000000'' 10000000000]
        ((bip_init 1)\<lparr>cols := 1\<rparr>, False)
      = Some (READ_COEF, (bip_init 1)\<lparr>cols := 1, rows := INT_MIN\<rparr>, False)"
    by (simp add: process_line_def number_def bad_count_def isnan_def isinf_def r c
        BIP_MAX_ROWS_def INT_MIN_def)
  show ?thesis by (simp add: example_huge_rows_def l1 l2)
qed

text \<open>
  C9 at the file \<^verbatim>\<open>1 / 10000000000\<close>. The row count \<open>10^10\<close> is outside 1..128, but the test
  is \<^verbatim>\<open>(int)val > BIP_MAX_ROWS\<close>: the conversion yields \<^verbatim>\<open>INT_MIN\<close>, the count is accepted,
  at the end of the file \<^verbatim>\<open>read_rows < rows\<close> is false, and \<^verbatim>\<open>bip_read\<close> calls
  \<^verbatim>\<open>bip_can_overflow\<close> and \<^verbatim>\<open>bip_preprocess\<close> and returns 0.
\<close>

theorem C9_huge_row_count_accepted:
  "map_option (\<lambda>r. (rd_ret r, rd_calls r, cols (rd_bip r), rows (rd_bip r)))
       (bip_read (bip_init 1) False (Some example_huge_rows))
     = Some (0, [Call_can_overflow, Call_preprocess], 1, - 2147483648)
   \<and> f_val (example_huge_rows ! 1 ! 0) = Finite (10 ^ 10)
   \<and> \<not> (1 \<le> (10 ^ 10 :: real) \<and> (10 ^ 10 :: real) \<le> 128)"
proof -
  let ?b = "(bip_init 1)\<lparr>cols := 1, rows := INT_MIN\<rparr>"
  have n: "nat (rows ?b) = 0" "cols ?b = 1" "rows ?b = - 2147483648" "read_rows ?b = 0"
    by (simp_all add: INT_MIN_def bip_init_def)
  have g: "bip_can_overflow ?b = None"
    using n(1) by (simp add: bip_can_overflow_def)
  have p: "cols (bip_preprocess ?b) = 1" "rows (bip_preprocess ?b) = - 2147483648"
    using bip_preprocess_result [of ?b] by (simp_all add: n)
  have "bip_read (bip_init 1) False (Some example_huge_rows)
      = Some \<lparr>rd_ret = 0, rd_bip = bip_preprocess ?b,
              rd_calls = [Call_can_overflow, Call_preprocess]\<rparr>"
    by (simp add: bip_read_def read_loop_huge_rows g n)
  then show ?thesis by (simp add: p example_huge_rows_def number_def)
qed

lemma rint_fixed: "rint v = v \<Longrightarrow> of_int \<lfloor>v\<rfloor> = v"
proof -
  assume r: "rint v = v"
  have "rint v \<in> \<int>" by (simp add: rint_def Let_def)
  with r have "v \<in> \<int>" by simp
  then show ?thesis by (rule of_int_floor)
qed

lemma bad_count_out_of_range:
  "count_out_of_range bound f \<Longrightarrow> bad_count bound errno f"
proof (cases "f_val f")
  case (Finite v)
  assume c: "count_out_of_range bound f"
  show ?thesis
  proof (cases "rint v = v \<and> \<not> v < 1")
    case True
    with c Finite have v: "of_int bound < v" "v < 2 ^ 31" "0 \<le> v"
      by (simp_all add: count_out_of_range_def)
    from True have "of_int \<lfloor>v\<rfloor> = v" by (simp add: rint_fixed)
    with v(1) have "bound < \<lfloor>v\<rfloor>" by linarith
    with v(2,3) have "int_of_double v > bound" by (simp add: int_of_double_def)
    then show ?thesis by (simp add: bad_count_def Finite)
  next
    case False
    then show ?thesis by (auto simp add: bad_count_def Finite)
  qed
qed (simp_all add: bad_count_def isnan_def isinf_def)

lemma bad_coef_out_of_bound: "value_out_of_bound bip f \<Longrightarrow> bad_coef bip errno f"
  by (cases "f_val f")
    (auto simp add: value_out_of_bound_def bad_coef_def isnan_def isinf_def)

lemma value_out_of_bound_cong:
  "max_coef_val b = max_coef_val bip \<Longrightarrow> min_coef_val b = min_coef_val bip
     \<Longrightarrow> value_out_of_bound b f = value_out_of_bound bip f"
  by (cases "f_val f") (simp_all add: value_out_of_bound_def)

lemma coef_loop_rejects:
  assumes "\<exists>col\<in>set cs.
      (int col \<noteq> cols bip \<and> value_out_of_bound bip (lfs ! col))
      \<or> (int col = cols bip \<and> f_text (lfs ! nat (cols bip)) \<notin> {''<='', ''>='', ''='', ''==''})"
  shows "fst (coef_loop lfs cs (bip, errno)) = False"
  using assms
proof (induction cs arbitrary: bip errno)
  case Nil
  then show ?case by simp
next
  case (Cons col cs)
  show ?case
  proof (cases "(int col \<noteq> cols bip \<and> value_out_of_bound bip (lfs ! col))
      \<or> (int col = cols bip \<and> f_text (lfs ! nat (cols bip)) \<notin> {''<='', ''>='', ''='', ''==''})")
    case True
    then show ?thesis
      by (auto simp add: Let_def bad_coef_out_of_bound)
  next
    case False
    with Cons.prems have rest: "\<exists>col\<in>set cs.
      (int col \<noteq> cols bip \<and> value_out_of_bound bip (lfs ! col))
      \<or> (int col = cols bip \<and> f_text (lfs ! nat (cols bip)) \<notin> {''<='', ''>='', ''='', ''==''})"
      by auto
    have step: "fst (coef_loop lfs cs (b, e)) = False"
      if "cols b = cols bip" "max_coef_val b = max_coef_val bip" "min_coef_val b = min_coef_val bip"
      for b e
      using rest by (intro Cons.IH) (simp add: value_out_of_bound_cong [OF that(2,3)] that(1))
    show ?thesis
      by (simp add: Let_def step)
  qed
qed

lemma process_line_rejects:
  assumes "defective mode bip lfs"
  shows "\<exists>bip' errno'. process_line mode lfs (bip, errno) = Some (READ_ERROR, bip', errno')"
proof (cases mode)
  case READ_ERROR
  with assms show ?thesis by (simp add: defective_def)
next
  case READ_COLS
  with assms show ?thesis
    by (auto simp add: defective_def process_line_def Let_def bad_count_out_of_range)
next
  case READ_ROWS
  with assms show ?thesis
    by (auto simp add: defective_def process_line_def Let_def bad_count_out_of_range)
next
  case READ_COEF
  show ?thesis
  proof (cases "read_rows bip \<ge> rows bip \<or> int (length lfs) \<noteq> cols bip + 2")
    case True
    with assms READ_COEF show ?thesis
      by (auto simp add: defective_def process_line_def)
  next
    case False
    then have len: "int (length lfs) = cols bip + 2" by simp
    then have "nat (cols bip + 2) = nat (int (length lfs))" by (simp only:)
    then have up: "[0..<nat (cols bip + 2)] = [0..<length lfs]" by simp
    from assms READ_COEF False have
      "(\<exists>col<length lfs. int col \<noteq> cols bip \<and> value_out_of_bound bip (lfs ! col))
        \<or> (0 \<le> cols bip \<and> f_text (lfs ! nat (cols bip)) \<notin> {''<='', ''>='', ''='', ''==''})"
      by (simp add: defective_def)
    then have "\<exists>col\<in>set [0..<length lfs].
      (int col \<noteq> cols bip \<and> value_out_of_bound bip (lfs ! col))
      \<or> (int col = cols bip \<and> f_text (lfs ! nat (cols bip)) \<notin> {''<='', ''>='', ''='', ''==''})"
    proof
      assume "\<exists>col<length lfs. int col \<noteq> cols bip \<and> value_out_of_bound bip (lfs ! col)"
      then show ?thesis by auto
    next
      assume a: "0 \<le> cols bip \<and> f_text (lfs ! nat (cols bip)) \<notin> {''<='', ''>='', ''='', ''==''}"
      with len have "nat (cols bip) < length lfs" by linarith
      then have "nat (cols bip) \<in> set [0..<length lfs]" by simp
      moreover from a have "int (nat (cols bip)) = cols bip" by simp
      ultimately show ?thesis using a by blast
    qed
    then have "fst (coef_loop lfs [0..<length lfs] (bip, errno)) = False"
      by (rule coef_loop_rejects)
    then obtain b e where "coef_loop lfs [0..<nat (cols bip + 2)] (bip, errno) = (False, b, e)"
      unfolding up by (cases "coef_loop lfs [0..<length lfs] (bip, errno)") simp
    with False READ_COEF assms show ?thesis
      by (simp add: process_line_def defective_def)
  qed
qed

lemma read_loop_error: "read_loop READ_ERROR ls (bip, errno) = Some (READ_ERROR, bip, errno)"
  by (cases ls) simp_all

lemma read_loop_append:
  "read_loop mode (xs @ ys) (bip, errno) =
     (case read_loop mode xs (bip, errno) of
        None \<Rightarrow> None
      | Some (m, b, e) \<Rightarrow> read_loop m ys (b, e))"
proof (induction xs arbitrary: mode bip errno)
  case Nil
  show ?case by simp
next
  case (Cons x xs)
  show ?case
  proof (cases "mode = READ_ERROR")
    case True
    then show ?thesis by (simp add: read_loop_error)
  next
    case False
    then show ?thesis
      by (cases "process_line mode x (bip, errno)") (auto simp add: Cons.IH)
  qed
qed

text \<open>
  The rest of C9 holds: when the reader comes to a line with one of the listed defects
  (a count of \<open>2^31\<close> or more apart), \<^verbatim>\<open>bip_read\<close> returns -1 and has called neither
  \<^verbatim>\<open>bip_can_overflow\<close> nor \<^verbatim>\<open>bip_preprocess\<close>.
\<close>

lemma bip_read_rejects_defect:
  assumes pre: "read_loop READ_COLS pre (bip, errno) = Some (mode, bip1, errno1)"
    and d: "defective mode bip1 l"
  shows "\<exists>r. bip_read bip errno (Some (pre @ l # post)) = Some r
           \<and> rd_ret r = - 1 \<and> rd_calls r = []"
proof -
  from d have m: "mode \<noteq> READ_ERROR" by (auto simp add: defective_def)
  obtain b e where p: "process_line mode l (bip1, errno1) = Some (READ_ERROR, b, e)"
    using process_line_rejects [OF d] by blast
  have "read_loop mode (l # post) (bip1, errno1) = Some (READ_ERROR, b, e)"
    using m by (simp add: p read_loop_error)
  then have "read_loop READ_COLS (pre @ l # post) (bip, errno) = Some (READ_ERROR, b, e)"
    by (simp add: read_loop_append pre)
  then show ?thesis by (simp add: bip_read_def)
qed

end
